theory Spec2Isabelle
  imports Main
begin

section \<open>Archetype storage (cardinal/internal/storage/archetype.go)\<close>

text \<open>
  Entities and component types are opaque identifiers; Go's \<open>int\<close> indices are
  modelled as \<open>int\<close>, and every slice access that Go would answer with a run-time
  panic is an explicit \<open>Inl\<close> result.
\<close>

type_synonym Entity = nat
type_synonym ComponentType = nat
type_synonym ArchetypeIndex = int

datatype panic = IndexOutOfRange

text \<open>
  Modelled from the spec: the type \<open>Layout\<close> with its methods \<open>Components\<close> and
  \<open>HasComponent\<close> is declared outside the files at hand. The spec describes a layout
  as an ordered collection of component-type identifiers; \<open>Components\<close> returns the
  collection and \<open>HasComponent\<close> is membership in it.
\<close>

record Layout =
  componentTypes :: "ComponentType list"

definition Components :: "Layout \<Rightarrow> ComponentType list" where
  "Components l = componentTypes l"

definition HasComponent :: "Layout \<Rightarrow> ComponentType \<Rightarrow> bool" where
  "HasComponent l c = (c \<in> set (componentTypes l))"

record Archetype =
  index :: ArchetypeIndex
  entities :: "Entity list"
  layout :: Layout

text \<open>\<open>archetypeStorageImpl\<close>: the slice \<open>archs\<close>.\<close>

type_synonym archetypeStorageImpl = "Archetype list"

definition NewArchetypeAccessor :: archetypeStorageImpl where
  "NewArchetypeAccessor = []"

definition NewArchetype :: "ArchetypeIndex \<Rightarrow> Layout \<Rightarrow> Archetype" where
  "NewArchetype i l = \<lparr>index = i, entities = [], layout = l\<rparr>"

definition PushArchetype :: "archetypeStorageImpl \<Rightarrow> ArchetypeIndex \<Rightarrow> Layout \<Rightarrow> archetypeStorageImpl" where
  "PushArchetype a i l = a @ [\<lparr>index = i, entities = [], layout = l\<rparr>]"

definition Count :: "archetypeStorageImpl \<Rightarrow> int" where
  "Count a = int (length a)"

definition Archetype_at :: "archetypeStorageImpl \<Rightarrow> ArchetypeIndex \<Rightarrow> panic + Archetype" where
  "Archetype_at a i =
     (if 0 \<le> i \<and> i < int (length a) then Inr (a ! nat i) else Inl IndexOutOfRange)"

definition Entities :: "Archetype \<Rightarrow> Entity list" where
  "Entities a = entities a"

text \<open>
  \<open>SwapRemove\<close>: the first statement reads \<open>entities[entityIndex]\<close>, which panics
  for an index outside the slice (in particular on an empty slice); otherwise the last
  entity is copied into the slot and the slice is cut by one.
\<close>

definition SwapRemove :: "Archetype \<Rightarrow> int \<Rightarrow> panic + (Entity \<times> Archetype)" where
  "SwapRemove a entityIndex =
     (if 0 \<le> entityIndex \<and> entityIndex < int (length (entities a))
      then Inr (entities a ! nat entityIndex,
                a\<lparr>entities := butlast ((entities a)[nat entityIndex := last (entities a)])\<rparr>)
      else Inl IndexOutOfRange)"

definition LayoutMatches :: "Archetype \<Rightarrow> ComponentType list \<Rightarrow> bool" where
  "LayoutMatches a components =
     (if length (Components (layout a)) \<noteq> length components then False
      else list_all (\<lambda>componentType. HasComponent (layout a) componentType) components)"

definition PushEntity :: "Archetype \<Rightarrow> Entity \<Rightarrow> Archetype" where
  "PushEntity a e = a\<lparr>entities := entities a @ [e]\<rparr>"

definition Archetype_Count :: "Archetype \<Rightarrow> int" where
  "Archetype_Count a = int (length (entities a))"

subsection \<open>Sequences of operations on the store\<close>

text \<open>
  Every operation the file offers on the store and on the archetypes it hands out.
  The store keeps pointers, so \<open>PushEntity\<close> and \<open>SwapRemove\<close> on the archetype
  obtained from \<open>Archetype(i)\<close> change the store's element in place. A panicking
  operation changes nothing; the run stops there.
\<close>

datatype store_op =
    OpPushArchetype ArchetypeIndex Layout
  | OpCount
  | OpArchetype ArchetypeIndex
  | OpArchetypes
  | OpPushEntity ArchetypeIndex Entity
  | OpSwapRemove ArchetypeIndex int

fun apply_op :: "archetypeStorageImpl \<Rightarrow> store_op \<Rightarrow> panic + archetypeStorageImpl" where
  "apply_op s (OpPushArchetype i l) = Inr (PushArchetype s i l)"
| "apply_op s OpCount = Inr s"
| "apply_op s (OpArchetype i) =
     (case Archetype_at s i of Inl p \<Rightarrow> Inl p | Inr _ \<Rightarrow> Inr s)"
| "apply_op s OpArchetypes = Inr s"
| "apply_op s (OpPushEntity i e) =
     (case Archetype_at s i of Inl p \<Rightarrow> Inl p
      | Inr a \<Rightarrow> Inr (s[nat i := PushEntity a e]))"
| "apply_op s (OpSwapRemove i k) =
     (case Archetype_at s i of Inl p \<Rightarrow> Inl p
      | Inr a \<Rightarrow> (case SwapRemove a k of Inl p \<Rightarrow> Inl p
                  | Inr (_, a') \<Rightarrow> Inr (s[nat i := a'])))"

fun run_ops :: "archetypeStorageImpl \<Rightarrow> store_op list \<Rightarrow> archetypeStorageImpl \<times> panic option" where
  "run_ops s [] = (s, None)"
| "run_ops s (x # xs) =
     (case apply_op s x of Inl p \<Rightarrow> (s, Some p) | Inr s' \<Rightarrow> run_ops s' xs)"

section \<open>Layout filters\<close>

text \<open>
  Modelled from the spec: the package \<open>filter\<close> (the interface \<open>LayoutFilter\<close> and
  its method \<open>MatchesLayout\<close>) is not among the files at hand. The spec gives a tagged
  variant over EXACT, CONTAINS, NOT, AND and OR with one match operation on a layout:
  EXACT holds when the layout is set-equal to the listed components, CONTAINS when it
  is a superset of them, and NOT, AND, OR compose the match predicate.
\<close>

datatype LayoutFilter =
    Exact "ComponentType list"
  | Contains "ComponentType list"
  | Not_filter LayoutFilter
  | And_filter LayoutFilter LayoutFilter
  | Or_filter LayoutFilter LayoutFilter

fun MatchesLayout :: "LayoutFilter \<Rightarrow> ComponentType list \<Rightarrow> bool" where
  "MatchesLayout (Exact cs) l = (set l = set cs)"
| "MatchesLayout (Contains cs) l = (set cs \<subseteq> set l)"
| "MatchesLayout (Not_filter f) l = (\<not> MatchesLayout f l)"
| "MatchesLayout (And_filter f g) l = (MatchesLayout f l \<and> MatchesLayout g l)"
| "MatchesLayout (Or_filter f g) l = (MatchesLayout f l \<or> MatchesLayout g l)"

section \<open>Queries and their per-world cache (package cardinal, query.go)\<close>

type_synonym WorldId = int

record cache =
  archetypes :: "ArchetypeIndex list"
  seen :: int

record Query =
  layoutMatches :: "WorldId \<rightharpoonup> cache"
  filter_q :: LayoutFilter

text \<open>
  \<open>StorageAccessor\<close> as \<open>evaluateQuery\<close> and its callers use it: the field \<open>Index\<close>
  (searched with the filter) and the field \<open>Archetypes\<close> (the archetype store above).
  The index holds one layout per archetype, in creation order.
\<close>

record StorageAccessor =
  Index :: "ComponentType list list"
  Archetypes :: archetypeStorageImpl

text \<open>
  \<open>World\<close> is an interface; the query code calls its methods \<open>ID\<close>,
  \<open>StorageAccessor\<close> and \<open>Entry\<close>. The entry type is left open.
\<close>

record 'entry World =
  ID :: WorldId
  storageAccessor :: StorageAccessor
  Entry :: "Entity \<Rightarrow> 'entry"

definition NewQuery :: "LayoutFilter \<Rightarrow> Query" where
  "NewQuery f = \<lparr>layoutMatches = Map.empty, filter_q = f\<rparr>"

text \<open>
  Modelled from the spec: \<open>Index.SearchFrom\<close> and the iterator it returns are not among
  the files at hand. Per the spec, only the archetypes from the high-water mark on are
  tested against the filter, in index order, and the matching ones are yielded. The
  loop below returns the indices it tested next to the indices that matched; reading
  a layout at a negative position is Go's index panic.
\<close>

fun search_loop :: "LayoutFilter \<Rightarrow> int \<Rightarrow> ComponentType list list
                      \<Rightarrow> ArchetypeIndex list \<times> ArchetypeIndex list" where
  "search_loop f i [] = ([], [])"
| "search_loop f i (l # ls) =
     (let (tested, matched) = search_loop f (i + 1) ls
      in (i # tested, if MatchesLayout f l then i # matched else matched))"

definition SearchFrom :: "ComponentType list list \<Rightarrow> LayoutFilter \<Rightarrow> int
                            \<Rightarrow> panic + (ArchetypeIndex list \<times> ArchetypeIndex list)" where
  "SearchFrom layouts f start =
     (if start < 0 then Inl IndexOutOfRange
      else Inr (search_loop f start (drop (nat start) layouts)))"

text \<open>
  \<open>evaluateQuery\<close>: creates the world's cache entry when it is missing, appends what
  \<open>SearchFrom\<close> yields from \<open>cache.seen\<close> on, and sets \<open>cache.seen\<close> to the store's
  count. The result carries the updated query, the returned slice of archetype indices
  and the list of indices that were tested against the filter.
\<close>

definition cache_of :: "Query \<Rightarrow> WorldId \<Rightarrow> cache" where
  "cache_of q w =
     (case layoutMatches q w of
        None \<Rightarrow> \<lparr>archetypes = [], seen = 0\<rparr>
      | Some c \<Rightarrow> c)"

definition evaluateQuery :: "Query \<Rightarrow> WorldId \<Rightarrow> StorageAccessor
                               \<Rightarrow> panic + (Query \<times> ArchetypeIndex list \<times> ArchetypeIndex list)" where
  "evaluateQuery q w accessor =
     (let c = cache_of q w in
      case SearchFrom (Index accessor) (filter_q q) (seen c) of
        Inl p \<Rightarrow> Inl p
      | Inr (tested, matched) \<Rightarrow>
          (let c' = \<lparr>archetypes = archetypes c @ matched, seen = Count (Archetypes accessor)\<rparr>
           in Inr (q\<lparr>layoutMatches := (layoutMatches q)(w \<mapsto> c')\<rparr>, archetypes c', tested)))"

text \<open>
  Modelled from the spec: \<open>storage.NewEntityIterator\<close> with \<open>HasNext\<close> and \<open>Next\<close>
  is not among the files at hand. It walks the archetype indices it was given, in
  order, and \<open>Next\<close> yields the entity list of the archetype at the next index
  (through the store's \<open>Archetype(index)\<close>, which panics outside the store). The
  iterator state is the list of indices still to come.
\<close>

record EntityIterator =
  it_archetypes :: archetypeStorageImpl
  it_indices :: "ArchetypeIndex list"

definition NewEntityIterator :: "archetypeStorageImpl \<Rightarrow> ArchetypeIndex list \<Rightarrow> EntityIterator" where
  "NewEntityIterator archs is = \<lparr>it_archetypes = archs, it_indices = is\<rparr>"

definition HasNext :: "EntityIterator \<Rightarrow> bool" where
  "HasNext it = (it_indices it \<noteq> [])"

definition Next :: "EntityIterator \<Rightarrow> panic + (Entity list \<times> EntityIterator)" where
  "Next it =
     (case it_indices it of
        [] \<Rightarrow> Inl IndexOutOfRange
      | i # rest \<Rightarrow>
          (case Archetype_at (it_archetypes it) i of
             Inl p \<Rightarrow> Inl p
           | Inr a \<Rightarrow> Inr (Entities a, it\<lparr>it_indices := rest\<rparr>)))"

text \<open>
  The loops \<open>for iter.HasNext() { entities := iter.Next() ... }\<close> of \<open>Each\<close>, \<open>Count\<close>
  and \<open>First\<close>, by recursion on the indices still to come. The callback of \<open>Each\<close> has
  type \<open>func(entry *Entry)\<close>: it returns nothing. \<open>each_loop\<close> is \<open>Each\<close> for a callback
  that leaves the archetype store alone: what such a callback does to the variables it
  closes over is a state transformer. A callback that removes entities while \<open>Each\<close>
  runs is the subject of \<open>each_loop_removing\<close> below.
\<close>

fun each_loop :: "archetypeStorageImpl \<Rightarrow> (Entity \<Rightarrow> 's \<Rightarrow> 's) \<Rightarrow> ArchetypeIndex list \<Rightarrow> 's
                    \<Rightarrow> panic + 's" where
  "each_loop archs f [] s = Inr s"
| "each_loop archs f (i # rest) s =
     (case Next (NewEntityIterator archs (i # rest)) of
        Inl p \<Rightarrow> Inl p
      | Inr (es, _) \<Rightarrow> each_loop archs f rest (foldl (\<lambda>s e. f e s) s es))"

fun count_loop :: "archetypeStorageImpl \<Rightarrow> ArchetypeIndex list \<Rightarrow> int \<Rightarrow> panic + int" where
  "count_loop archs [] ret = Inr ret"
| "count_loop archs (i # rest) ret =
     (case Next (NewEntityIterator archs (i # rest)) of
        Inl p \<Rightarrow> Inl p
      | Inr (es, _) \<Rightarrow> count_loop archs rest (ret + int (length es)))"

fun first_loop :: "archetypeStorageImpl \<Rightarrow> ArchetypeIndex list \<Rightarrow> panic + Entity option" where
  "first_loop archs [] = Inr None"
| "first_loop archs (i # rest) =
     (case Next (NewEntityIterator archs (i # rest)) of
        Inl p \<Rightarrow> Inl p
      | Inr (es, _) \<Rightarrow> (case es of [] \<Rightarrow> first_loop archs rest | e # _ \<Rightarrow> Inr (Some e)))"

definition Query_Each :: "Query \<Rightarrow> 'entry World \<Rightarrow> ('entry \<Rightarrow> 's \<Rightarrow> 's) \<Rightarrow> 's
                            \<Rightarrow> panic + (Query \<times> 's)" where
  "Query_Each q w callback s =
     (let accessor = storageAccessor w in
      case evaluateQuery q (ID w) accessor of
        Inl p \<Rightarrow> Inl p
      | Inr (q', result, _) \<Rightarrow>
          (case each_loop (Archetypes accessor) (\<lambda>e. callback (Entry w e)) result s of
             Inl p \<Rightarrow> Inl p
           | Inr s' \<Rightarrow> Inr (q', s')))"

definition Query_Count :: "Query \<Rightarrow> 'entry World \<Rightarrow> panic + (Query \<times> int)" where
  "Query_Count q w =
     (let accessor = storageAccessor w in
      case evaluateQuery q (ID w) accessor of
        Inl p \<Rightarrow> Inl p
      | Inr (q', result, _) \<Rightarrow>
          (case count_loop (Archetypes accessor) result 0 of
             Inl p \<Rightarrow> Inl p
           | Inr n \<Rightarrow> Inr (q', n)))"

text \<open>\<open>First\<close> returns \<open>(entry, ok)\<close>: \<open>None\<close> stands for \<open>(nil, false)\<close>.\<close>

definition Query_First :: "Query \<Rightarrow> 'entry World \<Rightarrow> panic + (Query \<times> 'entry option)" where
  "Query_First q w =
     (let accessor = storageAccessor w in
      case evaluateQuery q (ID w) accessor of
        Inl p \<Rightarrow> Inl p
      | Inr (q', result, _) \<Rightarrow>
          (if \<not> HasNext (NewEntityIterator (Archetypes accessor) result) then Inr (q', None)
           else (case first_loop (Archetypes accessor) result of
                   Inl p \<Rightarrow> Inl p
                 | Inr r \<Rightarrow> Inr (q', map_option (Entry w) r))))"

text \<open>
  Two conditions on the state that the query code relies on and that its callers
  maintain: the index lists the layouts of the store's archetypes, and a world's cache
  holds exactly the matching indices below its mark.
\<close>

definition accessor_ok :: "StorageAccessor \<Rightarrow> bool" where
  "accessor_ok accessor =
     (Index accessor = map (\<lambda>a. Components (layout a)) (Archetypes accessor))"

definition cache_ok :: "Query \<Rightarrow> WorldId \<Rightarrow> StorageAccessor \<Rightarrow> bool" where
  "cache_ok q w accessor =
     (let c = cache_of q w in
      0 \<le> seen c \<and> seen c \<le> Count (Archetypes accessor) \<and>
      archetypes c =
        map int (filter (\<lambda>i. MatchesLayout (filter_q q) (Index accessor ! i)) [0..<nat (seen c)]))"

text \<open>
  The archetypes of the store whose layout matches a filter, in index order, and
  their entities in that order, slot by slot.
\<close>

definition matching_archetypes :: "LayoutFilter \<Rightarrow> StorageAccessor \<Rightarrow> Archetype list" where
  "matching_archetypes f accessor =
     filter (\<lambda>a. MatchesLayout f (Components (layout a))) (Archetypes accessor)"

definition matching_entities :: "LayoutFilter \<Rightarrow> StorageAccessor \<Rightarrow> Entity list" where
  "matching_entities f accessor = concat (map Entities (matching_archetypes f accessor))"

text \<open>
  A callback that appends the entry it is given to a slice it closes over: the
  resulting slice is the sequence of visits of \<open>Each\<close>.
\<close>

definition record_visit :: "'entry \<Rightarrow> 'entry list \<Rightarrow> 'entry list" where
  "record_visit e visited = visited @ [e]"

text \<open>
  \<open>Each\<close> with a callback that removes entities while the iteration runs. The
  callback is handed the entry and can read the store; what it does is given as the
  removals it performs, each a call \<open>Archetype(j).SwapRemove(k)\<close>, in order, and its
  new closure state.

  Go's \<open>for _, e := range entities\<close> evaluates the slice once: it keeps the length the
  slice had then and reads slot after slot from the backing array. \<open>Entities()\<close>
  returns the archetype's own slice, not a copy, and \<open>SwapRemove\<close> writes the last
  entity into slot \<open>k\<close> of that array before it cuts the archetype's slice. So the loop
  still runs to the old length and reads what the removals wrote: \<open>arr\<close> is the
  array as the loop reads it, \<open>st\<close> the store. A removal from another archetype
  changes the store only; that archetype's slice is taken when its turn comes.
  Callbacks that add entities or archetypes are not covered.
\<close>

fun apply_removals :: "archetypeStorageImpl \<Rightarrow> ArchetypeIndex \<Rightarrow> Entity list
                         \<Rightarrow> (ArchetypeIndex \<times> int) list
                         \<Rightarrow> panic + (archetypeStorageImpl \<times> Entity list)" where
  "apply_removals st a arr [] = Inr (st, arr)"
| "apply_removals st a arr ((j, k) # rs) =
     (case Archetype_at st j of
        Inl p \<Rightarrow> Inl p
      | Inr arch \<Rightarrow>
          (case SwapRemove arch k of
             Inl p \<Rightarrow> Inl p
           | Inr (_, arch') \<Rightarrow>
               apply_removals (st[nat j := arch'])
                 a (if j = a then arr[nat k := last (entities arch)] else arr) rs))"

fun range_entities :: "('entry \<Rightarrow> archetypeStorageImpl \<Rightarrow> 's \<Rightarrow> (ArchetypeIndex \<times> int) list \<times> 's)
                         \<Rightarrow> (Entity \<Rightarrow> 'entry) \<Rightarrow> ArchetypeIndex \<Rightarrow> nat list
                         \<Rightarrow> archetypeStorageImpl \<Rightarrow> Entity list \<Rightarrow> 's
                         \<Rightarrow> panic + (archetypeStorageImpl \<times> 's)" where
  "range_entities callback entry a [] st arr s = Inr (st, s)"
| "range_entities callback entry a (i # rest) st arr s =
     (if i < length arr
      then (case callback (entry (arr ! i)) st s of
              (removals, s') \<Rightarrow>
                (case apply_removals st a arr removals of
                   Inl p \<Rightarrow> Inl p
                 | Inr (st', arr') \<Rightarrow> range_entities callback entry a rest st' arr' s'))
      else Inl IndexOutOfRange)"

fun each_loop_removing :: "('entry \<Rightarrow> archetypeStorageImpl \<Rightarrow> 's \<Rightarrow> (ArchetypeIndex \<times> int) list \<times> 's)
                             \<Rightarrow> (Entity \<Rightarrow> 'entry) \<Rightarrow> archetypeStorageImpl
                             \<Rightarrow> ArchetypeIndex list \<Rightarrow> 's
                             \<Rightarrow> panic + (archetypeStorageImpl \<times> 's)" where
  "each_loop_removing callback entry st [] s = Inr (st, s)"
| "each_loop_removing callback entry st (a # rest) s =
     (case Next (NewEntityIterator st (a # rest)) of
        Inl p \<Rightarrow> Inl p
      | Inr (es, _) \<Rightarrow>
          (case range_entities callback entry a [0..<length es] st es s of
             Inl p \<Rightarrow> Inl p
           | Inr (st', s') \<Rightarrow> each_loop_removing callback entry st' rest s'))"


text \<open>
  A small world: three archetypes with layouts \<open>{1}\<close>, \<open>{2}\<close> and \<open>{1, 2}\<close>; an entry
  is the entity itself.
\<close>

definition example_accessor :: StorageAccessor where
  "example_accessor =
     \<lparr>Index = [[1], [2], [1, 2]],
      Archetypes = [\<lparr>index = 0, entities = [10, 11], layout = \<lparr>componentTypes = [1]\<rparr>\<rparr>,
                    \<lparr>index = 1, entities = [20], layout = \<lparr>componentTypes = [2]\<rparr>\<rparr>,
                    \<lparr>index = 2, entities = [30], layout = \<lparr>componentTypes = [1, 2]\<rparr>\<rparr>]\<rparr>"

definition example_world :: "Entity World" where
  "example_world = \<lparr>ID = 0, storageAccessor = example_accessor, Entry = (\<lambda>e. e)\<rparr>"




section \<open>The CQL compiler\<close>

text \<open>
  Modelled from the spec: the CQL parser is not among the files at hand; the
  documentation of the language is. The spec gives two call-form predicates
  \<open>EXACT(...)\<close> and \<open>CONTAINS(...)\<close> over comma-separated component names, the prefix
  operator \<open>!\<close> binding to the next primary, the binary operators \<open>&\<close> and \<open>|\<close> without
  relative precedence, folded from left to right over a flat sequence, and
  parentheses for grouping; an unknown component name is a compile error. The
  compiler builds the filter tree directly. A query text is its sequence of tokens.

  \<open>parse_value\<close> reads one primary, \<open>parse_term\<close> a primary followed by operators,
  and \<open>parse_ops\<close> folds the operator sequence into the filter read so far. The
  length tests make the recursion well-founded; \<open>parse_consumes\<close> below shows that
  they never fail.
\<close>

datatype token =
    TExact | TContains | TLParen | TRParen | TComma | TNot | TAnd | TOr | TName string

type_synonym registry = "string \<Rightarrow> ComponentType option"

fun parse_names :: "registry \<Rightarrow> token list \<Rightarrow> (ComponentType list \<times> token list) option" where
  "parse_names reg (TName n # TComma # ts) =
     (case reg n of
        None \<Rightarrow> None
      | Some c \<Rightarrow> (case parse_names reg ts of
                     None \<Rightarrow> None
                   | Some (cs, rest) \<Rightarrow> Some (c # cs, rest)))"
| "parse_names reg (TName n # TRParen # ts) =
     (case reg n of None \<Rightarrow> None | Some c \<Rightarrow> Some ([c], ts))"
| "parse_names reg ts = None"

function (sequential)
  parse_value :: "registry \<Rightarrow> token list \<Rightarrow> (LayoutFilter \<times> token list) option" and
  parse_term :: "registry \<Rightarrow> token list \<Rightarrow> (LayoutFilter \<times> token list) option" and
  parse_ops :: "registry \<Rightarrow> LayoutFilter \<Rightarrow> token list \<Rightarrow> (LayoutFilter \<times> token list) option"
where
  "parse_value reg (TExact # TLParen # ts) =
     (case parse_names reg ts of None \<Rightarrow> None | Some (cs, rest) \<Rightarrow> Some (Exact cs, rest))"
| "parse_value reg (TContains # TLParen # ts) =
     (case parse_names reg ts of None \<Rightarrow> None | Some (cs, rest) \<Rightarrow> Some (Contains cs, rest))"
| "parse_value reg (TNot # ts) =
     (case parse_value reg ts of None \<Rightarrow> None | Some (f, rest) \<Rightarrow> Some (Not_filter f, rest))"
| "parse_value reg (TLParen # ts) =
     (case parse_term reg ts of
        Some (f, TRParen # rest) \<Rightarrow> Some (f, rest)
      | _ \<Rightarrow> None)"
| "parse_value reg ts = None"
| "parse_term reg ts =
     (case parse_value reg ts of
        None \<Rightarrow> None
      | Some (f, rest) \<Rightarrow> if length rest < length ts then parse_ops reg f rest else None)"
| "parse_ops reg acc (TAnd # ts) =
     (case parse_value reg ts of
        None \<Rightarrow> None
      | Some (g, rest) \<Rightarrow>
          if length rest \<le> length ts then parse_ops reg (And_filter acc g) rest else None)"
| "parse_ops reg acc (TOr # ts) =
     (case parse_value reg ts of
        None \<Rightarrow> None
      | Some (g, rest) \<Rightarrow>
          if length rest \<le> length ts then parse_ops reg (Or_filter acc g) rest else None)"
| "parse_ops reg acc ts = Some (acc, ts)"
  by pat_completeness auto
termination
  by (relation "measure (\<lambda>x. case x of
         Inl (reg, ts) \<Rightarrow> 3 * length ts
       | Inr (Inl (reg, ts)) \<Rightarrow> 3 * length ts + 2
       | Inr (Inr (reg, acc, ts)) \<Rightarrow> 3 * length ts + 1)") auto

definition compileCQL :: "registry \<Rightarrow> token list \<Rightarrow> LayoutFilter option" where
  "compileCQL reg ts =
     (case parse_term reg ts of
        Some (f, []) \<Rightarrow> Some f
      | _ \<Rightarrow> None)"


definition example_registry :: registry where
  "example_registry n =
     (if n = ''Health'' then Some 1 else if n = ''Attack'' then Some 2 else None)"

section \<open>The shard iterator (cardinal/router/iterator)\<close>

text \<open>
  Modelled from the spec: the iterator and its method \<open>Each\<close> are not among the files
  at hand; its tests are. Per the spec, \<open>Each(callback, startTick?, stopTick?)\<close> pages
  through a remote feed of epochs starting from \<open>startTick\<close> (default 0), threads the
  continuation key between feed calls, decodes every transaction of an epoch through
  the message registry (an unknown message ID is fatal), calls the callback once per
  epoch with the decoded batch, the epoch number and the timestamp, propagates a
  callback or transport error, requires \<open>startTick < stopTick\<close> before any feed call,
  and ends without error when the feed is exhausted.

  The stop tick: per the spec the run stops after processing an epoch whose number is
  at or past the stop tick. The test \<open>TestIteratorStopRange\<close> feeds epochs 12 and 20
  with \<open>stopTick = 15\<close> and expects exactly one callback, so an epoch whose number
  is greater than the stop tick ends the run before it is processed. The model keeps
  the spec's rule for the epoch that meets the stop tick (processed, then the run
  stops) and follows the test for an epoch beyond it (the run stops, no callback).

  Ticks and message IDs are \<open>uint64\<close> values that are only compared, modelled as
  \<open>nat\<close>. The remote feed is a state passing function; the message value stands for
  everything decoded from the wire entry. A run that does not return is \<open>None\<close>.
\<close>

record TxData =
  TxId :: nat
  GameShardTransaction :: "nat list"

record Epoch =
  Epoch_number :: nat
  UnixTimestamp :: nat
  Txs :: "TxData list"

record QueryTransactionsRequest =
  Namespace :: string
  PageKey :: "nat list option"

record QueryTransactionsResponse =
  Epochs :: "Epoch list"
  Page :: "nat list option"

record 'v Message =
  Decode :: "nat list \<Rightarrow> 'v option"

record 'v TxBatch =
  MsgID :: nat
  MsgValue :: 'v

record ('v, 'q) iterator =
  getMessageByID :: "nat \<Rightarrow> 'v Message option"
  namespace :: string
  querier :: "'q \<Rightarrow> QueryTransactionsRequest \<Rightarrow> (string + QueryTransactionsResponse) \<times> 'q"

datatype each_error =
    InvalidRange
  | QueryFailed string
  | UnknownMessage nat
  | DecodeFailed nat
  | CallbackFailed string

datatype tick_range = NoRange | From nat | Between nat nat

fun range_ok :: "tick_range \<Rightarrow> bool" where
  "range_ok (Between start stop) = (start < stop)"
| "range_ok r = True"

fun start_tick :: "tick_range \<Rightarrow> nat" where
  "start_tick NoRange = 0"
| "start_tick (From start) = start"
| "start_tick (Between start stop) = start"

fun stop_tick :: "tick_range \<Rightarrow> nat option" where
  "stop_tick (Between start stop) = Some stop"
| "stop_tick r = None"

text \<open>The page key of the first request: the start tick as eight big-endian bytes.\<close>

definition put_uint64_be :: "nat \<Rightarrow> nat list" where
  "put_uint64_be n = map (\<lambda>k. (n div 256 ^ k) mod 256) [7, 6, 5, 4, 3, 2, 1, 0]"

fun decode_txs :: "(nat \<Rightarrow> 'v Message option) \<Rightarrow> TxData list \<Rightarrow> each_error + 'v TxBatch list" where
  "decode_txs get [] = Inr []"
| "decode_txs get (tx # txs) =
     (case get (TxId tx) of
        None \<Rightarrow> Inl (UnknownMessage (TxId tx))
      | Some m \<Rightarrow>
          (case Decode m (GameShardTransaction tx) of
             None \<Rightarrow> Inl (DecodeFailed (TxId tx))
           | Some v \<Rightarrow>
               (case decode_txs get txs of
                  Inl e \<Rightarrow> Inl e
                | Inr batch \<Rightarrow> Inr (\<lparr>MsgID = TxId tx, MsgValue = v\<rparr> # batch))))"

text \<open>
  One page of epochs: \<open>Continue\<close> when all epochs were processed, \<open>Stop\<close> when the stop
  tick was reached, \<open>Fail\<close> with the error that ended the run.
\<close>

datatype 's step = Continue 's | Stop 's | Fail each_error 's

definition past_stop :: "nat option \<Rightarrow> Epoch \<Rightarrow> bool" where
  "past_stop stop ep = (case stop of None \<Rightarrow> False | Some t \<Rightarrow> t < Epoch_number ep)"

definition meets_stop :: "nat option \<Rightarrow> Epoch \<Rightarrow> bool" where
  "meets_stop stop ep = (case stop of None \<Rightarrow> False | Some t \<Rightarrow> t \<le> Epoch_number ep)"

fun each_epochs :: "(nat \<Rightarrow> 'v Message option)
                     \<Rightarrow> ('v TxBatch list \<Rightarrow> nat \<Rightarrow> nat \<Rightarrow> 's \<Rightarrow> string + 's)
                     \<Rightarrow> nat option \<Rightarrow> Epoch list \<Rightarrow> 's \<Rightarrow> 's step" where
  "each_epochs get fn stop [] s = Continue s"
| "each_epochs get fn stop (ep # eps) s =
     (if past_stop stop ep then Stop s
      else case decode_txs get (Txs ep) of
             Inl e \<Rightarrow> Fail e s
           | Inr batch \<Rightarrow>
               (case fn batch (Epoch_number ep) (UnixTimestamp ep) s of
                  Inl msg \<Rightarrow> Fail (CallbackFailed msg) s
                | Inr s' \<Rightarrow>
                    if meets_stop stop ep then Stop s'
                    else each_epochs get fn stop eps s'))"

partial_function (option) each_pages ::
  "('v, 'q) iterator \<Rightarrow> ('v TxBatch list \<Rightarrow> nat \<Rightarrow> nat \<Rightarrow> 's \<Rightarrow> string + 's)
     \<Rightarrow> nat option \<Rightarrow> nat list option \<Rightarrow> 'q \<Rightarrow> 's \<Rightarrow> (each_error option \<times> 'q \<times> 's) option" where
  "each_pages it fn stop key q s =
     (case querier it q \<lparr>Namespace = namespace it, PageKey = key\<rparr> of
        (Inl err, q') \<Rightarrow> Some (Some (QueryFailed err), q', s)
      | (Inr res, q') \<Rightarrow>
          (case each_epochs (getMessageByID it) fn stop (Epochs res) s of
             Fail e s' \<Rightarrow> Some (Some e, q', s')
           | Stop s' \<Rightarrow> Some (None, q', s')
           | Continue s' \<Rightarrow>
               (case Page res of
                  None \<Rightarrow> Some (None, q', s')
                | Some k \<Rightarrow> each_pages it fn stop (Some k) q' s')))"

definition Iterator_Each ::
  "('v, 'q) iterator \<Rightarrow> ('v TxBatch list \<Rightarrow> nat \<Rightarrow> nat \<Rightarrow> 's \<Rightarrow> string + 's)
     \<Rightarrow> tick_range \<Rightarrow> 'q \<Rightarrow> 's \<Rightarrow> (each_error option \<times> 'q \<times> 's) option" where
  "Iterator_Each it fn r q s =
     (if \<not> range_ok r then Some (Some InvalidRange, q, s)
      else each_pages it fn (stop_tick r) (Some (put_uint64_be (start_tick r))) q s)"


text \<open>
  A callback that records its arguments in a slice it closes over, as the tests'
  counting callback does.
\<close>

definition record_epoch :: "'b \<Rightarrow> nat \<Rightarrow> nat \<Rightarrow> ('b \<times> nat \<times> nat) list
                              \<Rightarrow> string + ('b \<times> nat \<times> nat) list" where
  "record_epoch batch tick timestamp calls = Inr (calls @ [(batch, tick, timestamp)])"


text \<open>
  The epochs of a feed that are processed: all of them without a stop tick; with one,
  those before the first epoch at or past the stop tick, and that epoch too when its
  number equals the stop tick.
\<close>

fun processed_epochs :: "nat option \<Rightarrow> Epoch list \<Rightarrow> Epoch list" where
  "processed_epochs stop [] = []"
| "processed_epochs stop (ep # eps) =
     (if past_stop stop ep then []
      else if meets_stop stop ep then [ep]
      else ep # processed_epochs stop eps)"


text \<open>
  The tests' \<open>mockQuerier\<close>: it records the request, answers with its error when one
  is set and otherwise with \<open>ret[i]\<close>, counting the calls; reading past the end of
  \<open>ret\<close>, a panic in the test, is a failed request here. The fixtures are those of
  \<open>TestIteratorStopRange\<close> and \<open>TestIteratorReturnsErrorWhenQueryNotFound\<close>.
\<close>

type_synonym mockQuerier_state = "nat \<times> QueryTransactionsRequest option"

definition mockQuerier :: "string option \<Rightarrow> QueryTransactionsResponse list \<Rightarrow> mockQuerier_state
                             \<Rightarrow> QueryTransactionsRequest
                             \<Rightarrow> (string + QueryTransactionsResponse) \<times> mockQuerier_state" where
  "mockQuerier retErr ret m req =
     (case retErr of
        Some err \<Rightarrow> (Inl err, (fst m, Some req))
      | None \<Rightarrow>
          if fst m < length ret then (Inr (ret ! fst m), (Suc (fst m), Some req))
          else (Inl ''index out of range'', (fst m, Some req)))"

definition fooMsg :: "nat list Message" where
  "fooMsg = \<lparr>Decode = (\<lambda>body. Some body)\<rparr>"

definition foo_lookup :: "nat \<Rightarrow> nat list Message option" where
  "foo_lookup i = (if i = 10 then Some fooMsg else None)"

definition stop_range_feed :: "QueryTransactionsResponse list" where
  "stop_range_feed =
     [\<lparr>Epochs = [\<lparr>Epoch_number = 12, UnixTimestamp = 15,
                   Txs = [\<lparr>TxId = 10, GameShardTransaction = [3]\<rparr>]\<rparr>,
                 \<lparr>Epoch_number = 20, UnixTimestamp = 0, Txs = []\<rparr>],
       Page = None\<rparr>]"

definition stop_range_iterator :: "(nat list, mockQuerier_state) iterator" where
  "stop_range_iterator =
     \<lparr>getMessageByID = foo_lookup, namespace = ''ns'',
      querier = mockQuerier None stop_range_feed\<rparr>"

definition not_found_feed :: "QueryTransactionsResponse list" where
  "not_found_feed =
     [\<lparr>Epochs = [\<lparr>Epoch_number = 1, UnixTimestamp = 1,
                   Txs = [\<lparr>TxId = 1, GameShardTransaction = []\<rparr>]\<rparr>],
       Page = None\<rparr>]"

definition not_found_iterator :: "(nat list, mockQuerier_state) iterator" where
  "not_found_iterator =
     \<lparr>getMessageByID = (\<lambda>i. None), namespace = [],
      querier = mockQuerier None not_found_feed\<rparr>"

text \<open>
  The fixtures of \<open>TestIteratorHappyPath\<close>, \<open>TestIteratorStartRange\<close> and
  \<open>TestIteratorReturnsErrorIfQueryFails\<close>, and the tests' \<open>parsePageKey\<close>
  (\<open>binary.BigEndian.Uint64\<close>, which panics on fewer than eight bytes).
\<close>

definition happy_path_feed :: "QueryTransactionsResponse list" where
  "happy_path_feed =
     [\<lparr>Epochs = [\<lparr>Epoch_number = 12, UnixTimestamp = 15,
                   Txs = [\<lparr>TxId = 10, GameShardTransaction = [3]\<rparr>]\<rparr>],
       Page = None\<rparr>]"

definition happy_path_iterator :: "(nat list, mockQuerier_state) iterator" where
  "happy_path_iterator =
     \<lparr>getMessageByID = foo_lookup, namespace = ''ns'',
      querier = mockQuerier None happy_path_feed\<rparr>"

definition failing_iterator :: "string \<Rightarrow> string \<Rightarrow> (nat list, mockQuerier_state) iterator" where
  "failing_iterator ns err =
     \<lparr>getMessageByID = (\<lambda>i. None), namespace = ns, querier = mockQuerier (Some err) []\<rparr>"

definition parsePageKey :: "nat list \<Rightarrow> nat option" where
  "parsePageKey key =
     (if length key < 8 then None
      else Some (foldl (\<lambda>acc b. acc * 256 + b) 0 (take 8 key)))"





section \<open>Properties of the archetype storage\<close>

lemma SwapRemove_in_range:
  assumes "0 \<le> i" and "i < int (length (entities a))"
  shows "SwapRemove a i =
           Inr (entities a ! nat i,
                a\<lparr>entities := butlast ((entities a)[nat i := last (entities a)])\<rparr>)"
  using assms by (simp add: SwapRemove_def)

lemma butlast_update_nth:
  assumes "j < length xs - 1"
  shows "butlast (xs[k := v]) ! j = (if j = k then v else xs ! j)"
proof -
  have "butlast (xs[k := v]) ! j = (xs[k := v]) ! j"
    using assms by (simp add: nth_butlast)
  also have "\<dots> = (if j = k then v else xs ! j)"
    using assms by (simp add: nth_list_update)
  finally show ?thesis .
qed

text \<open>
  C4. For an archetype with \<open>n \<ge> 1\<close> entities and a slot \<open>0 \<le> i < n\<close>,
  \<open>SwapRemove(i)\<close> returns the entity stored at slot \<open>i\<close>; afterwards the list has
  \<open>n - 1\<close> entities, the entity that was last sits at slot \<open>i\<close> when \<open>i < n - 1\<close>, and
  every other remaining slot is as before. \<open>PushEntity\<close> appends its entity at the
  end, so the length grows by one.
\<close>

theorem SwapRemove_PushEntity_spec:
  assumes "0 \<le> i" and "i < int (length (entities a))"
  shows "(\<exists>a'. SwapRemove a i = Inr (entities a ! nat i, a')
            \<and> length (entities a') = length (entities a) - 1
            \<and> (nat i < length (entities a) - 1 \<longrightarrow>
                 entities a' ! nat i = entities a ! (length (entities a) - 1))
            \<and> (\<forall>j. j < length (entities a) - 1 \<and> j \<noteq> nat i \<longrightarrow>
                 entities a' ! j = entities a ! j)
            \<and> layout a' = layout a \<and> index a' = index a)
       \<and> entities (PushEntity a e) = entities a @ [e]
       \<and> length (entities (PushEntity a e)) = length (entities a) + 1
       \<and> Archetype_Count (PushEntity a e) = Archetype_Count a + 1"
proof -
  let ?es = "entities a"
  let ?a' = "a\<lparr>entities := butlast (?es[nat i := last ?es])\<rparr>"
  have ne: "?es \<noteq> []" using assms by auto
  have lst: "last ?es = ?es ! (length ?es - 1)" using ne by (simp add: last_conv_nth)
  have "SwapRemove a i = Inr (?es ! nat i, ?a')"
    using assms by (rule SwapRemove_in_range)
  moreover have "length (entities ?a') = length ?es - 1" by simp
  moreover have "nat i < length ?es - 1 \<longrightarrow> entities ?a' ! nat i = ?es ! (length ?es - 1)"
    by (simp add: butlast_update_nth lst)
  moreover have "\<forall>j. j < length ?es - 1 \<and> j \<noteq> nat i \<longrightarrow> entities ?a' ! j = ?es ! j"
    by (simp add: butlast_update_nth)
  moreover have "layout ?a' = layout a \<and> index ?a' = index a" by simp
  ultimately have swap: "\<exists>a'. SwapRemove a i = Inr (entities a ! nat i, a')
            \<and> length (entities a') = length (entities a) - 1
            \<and> (nat i < length (entities a) - 1 \<longrightarrow>
                 entities a' ! nat i = entities a ! (length (entities a) - 1))
            \<and> (\<forall>j. j < length (entities a) - 1 \<and> j \<noteq> nat i \<longrightarrow>
                 entities a' ! j = entities a ! j)
            \<and> layout a' = layout a \<and> index a' = index a"
    by blast
  have push: "entities (PushEntity a e) = entities a @ [e]" by (simp add: PushEntity_def)
  have len: "length (entities (PushEntity a e)) = length (entities a) + 1"
    by (simp add: PushEntity_def)
  have cnt: "Archetype_Count (PushEntity a e) = Archetype_Count a + 1"
    by (simp add: PushEntity_def Archetype_Count_def)
  from swap push len cnt show ?thesis by blast
qed

theorem SwapRemove_PushEntity_spec_witness:
  "(0::int) \<le> 0
   \<and> (0::int) < int (length (entities \<lparr>index = 0, entities = [10, 20, 30], layout = \<lparr>componentTypes = [1]\<rparr>\<rparr>))
   \<and> SwapRemove \<lparr>index = 0, entities = [10, 20, 30], layout = \<lparr>componentTypes = [1]\<rparr>\<rparr> 0
       = Inr (10, \<lparr>index = 0, entities = [30, 20], layout = \<lparr>componentTypes = [1]\<rparr>\<rparr>)
   \<and> entities (PushEntity \<lparr>index = 0, entities = [10, 20, 30], layout = \<lparr>componentTypes = [1]\<rparr>\<rparr> 40)
       = [10, 20, 30, 40]"
  using SwapRemove_PushEntity_spec
          [of 0 "\<lparr>index = 0, entities = [10, 20, 30], layout = \<lparr>componentTypes = [1]\<rparr>\<rparr>" 40]
  by (simp add: SwapRemove_def)

lemma LayoutMatches_unfold:
  "LayoutMatches a cs =
     (length (Components (layout a)) = length cs \<and> set cs \<subseteq> set (Components (layout a)))"
  by (auto simp: LayoutMatches_def HasComponent_def Components_def list_all_iff)

text \<open>
  C5 as stated fails: with a repeated component type the length test and the
  membership test both pass although the two sets differ, and a list that repeats
  the only component of a layout is rejected although the sets agree.
\<close>

theorem LayoutMatches_repeated_counterexample:
  "LayoutMatches \<lparr>index = 0, entities = [], layout = \<lparr>componentTypes = [1, 2]\<rparr>\<rparr> [1, 1]
   \<and> set (Components (layout \<lparr>index = 0, entities = [], layout = \<lparr>componentTypes = [1, 2]\<rparr>\<rparr>))
       \<noteq> set [1, 1]
   \<and> \<not> LayoutMatches \<lparr>index = 0, entities = [], layout = \<lparr>componentTypes = [1]\<rparr>\<rparr> [1, 1]
   \<and> set (Components (layout \<lparr>index = 0, entities = [], layout = \<lparr>componentTypes = [1]\<rparr>\<rparr>))
       = set [1, 1]"
  by (simp add: LayoutMatches_unfold Components_def)

text \<open>
  C5, amended. For an archetype whose layout lists no component type twice and a list
  \<open>cs\<close> without repeated component types, \<open>LayoutMatches(cs)\<close> is true if and only if
  the layout and \<open>cs\<close> hold the same set of component types.
\<close>

theorem LayoutMatches_distinct_iff:
  assumes "distinct (Components (layout a))" and "distinct cs"
  shows "LayoutMatches a cs \<longleftrightarrow> set (Components (layout a)) = set cs"
proof
  assume "LayoutMatches a cs"
  then have len: "length (Components (layout a)) = length cs"
    and sub: "set cs \<subseteq> set (Components (layout a))"
    by (simp_all add: LayoutMatches_unfold)
  have "card (set cs) = card (set (Components (layout a)))"
    using assms len by (simp add: distinct_card)
  with sub show "set (Components (layout a)) = set cs"
    using card_subset_eq [of "set (Components (layout a))" "set cs"] by simp
next
  assume eq: "set (Components (layout a)) = set cs"
  have "length (Components (layout a)) = card (set (Components (layout a)))"
    using assms(1) by (simp add: distinct_card)
  also have "\<dots> = card (set cs)" using eq by simp
  also have "\<dots> = length cs" using assms(2) by (simp add: distinct_card)
  finally show "LayoutMatches a cs" using eq by (simp add: LayoutMatches_unfold)
qed

theorem LayoutMatches_distinct_iff_witness:
  "distinct (Components (layout \<lparr>index = 0, entities = [], layout = \<lparr>componentTypes = [1, 2]\<rparr>\<rparr>))
   \<and> distinct [2, 1 :: nat]
   \<and> LayoutMatches \<lparr>index = 0, entities = [], layout = \<lparr>componentTypes = [1, 2]\<rparr>\<rparr> [2, 1]
   \<and> set (Components (layout \<lparr>index = 0, entities = [], layout = \<lparr>componentTypes = [1, 2]\<rparr>\<rparr>))
       = set [2, 1]"
  using LayoutMatches_distinct_iff
          [of "\<lparr>index = 0, entities = [], layout = \<lparr>componentTypes = [1, 2]\<rparr>\<rparr>" "[2, 1]"]
  by (auto simp: Components_def)

subsection \<open>The store only grows\<close>

lemma Archetype_at_Inr:
  "Archetype_at s i = Inr a \<Longrightarrow> 0 \<le> i \<and> nat i < length s \<and> a = s ! nat i"
  by (auto simp: Archetype_at_def split: if_splits)

lemma map_update_same:
  assumes "f v = f (xs ! n)"
  shows "map f (xs[n := v]) = map f xs"
proof (cases "n < length xs")
  case True
  with assms show ?thesis by (auto simp: list_eq_iff_nth_eq nth_list_update)
next
  case False
  then have "xs[n := v] = xs" by (simp add: list_update_beyond)
  then show ?thesis by simp
qed

lemma apply_op_grows:
  assumes "apply_op s x = Inr s'"
  shows "length s \<le> length s'
       \<and> map (\<lambda>a. (index a, layout a)) (take (length s) s') = map (\<lambda>a. (index a, layout a)) s"
proof (cases x)
  case (OpPushArchetype i l)
  with assms show ?thesis by (auto simp: PushArchetype_def)
next
  case OpCount
  with assms show ?thesis by auto
next
  case (OpArchetype i)
  with assms show ?thesis by (auto split: sum.splits)
next
  case OpArchetypes
  with assms show ?thesis by auto
next
  case (OpPushEntity i e)
  with assms obtain a where a: "Archetype_at s i = Inr a" and s': "s' = s[nat i := PushEntity a e]"
    by (auto split: sum.splits)
  from a have "a = s ! nat i" by (simp add: Archetype_at_Inr)
  then have "map (\<lambda>a. (index a, layout a)) s' = map (\<lambda>a. (index a, layout a)) s"
    unfolding s' by (simp add: map_update_same PushEntity_def)
  then show ?thesis by (simp add: s')
next
  case (OpSwapRemove i k)
  with assms obtain a r a' where a: "Archetype_at s i = Inr a"
    and sr: "SwapRemove a k = Inr (r, a')" and s': "s' = s[nat i := a']"
    by (auto split: sum.splits prod.splits)
  from a have "a = s ! nat i" by (simp add: Archetype_at_Inr)
  moreover from sr have "index a' = index a \<and> layout a' = layout a"
    by (auto simp: SwapRemove_def split: if_splits)
  ultimately have "map (\<lambda>a. (index a, layout a)) s' = map (\<lambda>a. (index a, layout a)) s"
    unfolding s' by (simp add: map_update_same)
  then show ?thesis by (simp add: s')
qed

lemma run_ops_grows:
  "length s \<le> length (fst (run_ops s ops))
   \<and> map (\<lambda>a. (index a, layout a)) (take (length s) (fst (run_ops s ops)))
       = map (\<lambda>a. (index a, layout a)) s"
proof (induction ops arbitrary: s)
  case Nil
  show ?case by simp
next
  case (Cons x xs)
  show ?case
  proof (cases "apply_op s x")
    case (Inl p)
    then show ?thesis by simp
  next
    case (Inr s1)
    note step = apply_op_grows [OF Inr]
    note rest = Cons.IH [of s1]
    have run: "fst (run_ops s (x # xs)) = fst (run_ops s1 xs)" using Inr by simp
    have len: "length s \<le> length (fst (run_ops s1 xs))" using step rest by linarith
    have "take (length s) (fst (run_ops s1 xs))
            = take (length s) (take (length s1) (fst (run_ops s1 xs)))"
      using step by (simp add: min_def)
    then have "map (\<lambda>a. (index a, layout a)) (take (length s) (fst (run_ops s1 xs)))
            = take (length s) (map (\<lambda>a. (index a, layout a)) (take (length s1) (fst (run_ops s1 xs))))"
      by (simp add: take_map)
    also have "\<dots> = take (length s) (map (\<lambda>a. (index a, layout a)) s1)"
      using rest by simp
    also have "\<dots> = map (\<lambda>a. (index a, layout a)) s"
      using step by (simp add: take_map)
    finally show ?thesis using len run by simp
  qed
qed

lemma same_signature_nth:
  assumes "map (\<lambda>a. (index a, layout a)) (take (length s) s') = map (\<lambda>a. (index a, layout a)) s"
    and "length s \<le> length s'" and "n < length s"
  shows "index (s' ! n) = index (s ! n) \<and> layout (s' ! n) = layout (s ! n)"
proof -
  have "(map (\<lambda>a. (index a, layout a)) (take (length s) s')) ! n
          = (map (\<lambda>a. (index a, layout a)) s) ! n"
    using assms(1) by simp
  then show ?thesis using assms(2,3) by simp
qed

text \<open>
  C6. Whatever sequence of operations runs on the archetype store, \<open>Count\<close> never
  decreases and every index that was valid before still answers with an archetype of
  the same layout and the same index field. One \<open>PushArchetype\<close> appends a new, empty
  archetype at the end: \<open>Count\<close> grows by exactly one and \<open>Archetype(i)\<close> is unchanged
  for every index valid before.
\<close>

theorem archetype_store_append_only:
  "Count s \<le> Count (fst (run_ops s ops))
   \<and> (\<forall>i. 0 \<le> i \<and> i < Count s \<longrightarrow>
        (\<exists>a a'. Archetype_at s i = Inr a \<and> Archetype_at (fst (run_ops s ops)) i = Inr a'
               \<and> layout a' = layout a \<and> index a' = index a))
   \<and> PushArchetype s k l = s @ [NewArchetype k l]
   \<and> Count (PushArchetype s k l) = Count s + 1
   \<and> (\<forall>i. 0 \<le> i \<and> i < Count s \<longrightarrow> Archetype_at (PushArchetype s k l) i = Archetype_at s i)"
proof -
  let ?s' = "fst (run_ops s ops)"
  note g = run_ops_grows [of s ops]
  have c1: "Count s \<le> Count ?s'" using g by (simp add: Count_def)
  have c2: "\<forall>i. 0 \<le> i \<and> i < Count s \<longrightarrow>
        (\<exists>a a'. Archetype_at s i = Inr a \<and> Archetype_at ?s' i = Inr a'
               \<and> layout a' = layout a \<and> index a' = index a)"
  proof (intro allI impI)
    fix i :: int
    assume i: "0 \<le> i \<and> i < Count s"
    then have n: "nat i < length s" by (auto simp: Count_def)
    from same_signature_nth [of s ?s' "nat i"] g n
    have "index (?s' ! nat i) = index (s ! nat i) \<and> layout (?s' ! nat i) = layout (s ! nat i)"
      by blast
    moreover have "Archetype_at s i = Inr (s ! nat i)"
      using i by (simp add: Archetype_at_def Count_def)
    moreover have "Archetype_at ?s' i = Inr (?s' ! nat i)"
      using i g by (simp add: Archetype_at_def Count_def)
    ultimately show "\<exists>a a'. Archetype_at s i = Inr a \<and> Archetype_at ?s' i = Inr a'
               \<and> layout a' = layout a \<and> index a' = index a"
      by simp
  qed
  have c3: "PushArchetype s k l = s @ [NewArchetype k l]"
    by (simp add: PushArchetype_def NewArchetype_def)
  have c4: "Count (PushArchetype s k l) = Count s + 1"
    by (simp add: PushArchetype_def Count_def)
  have c5: "\<forall>i. 0 \<le> i \<and> i < Count s \<longrightarrow> Archetype_at (PushArchetype s k l) i = Archetype_at s i"
    by (auto simp: PushArchetype_def Count_def Archetype_at_def nth_append)
  from c1 c2 c3 c4 c5 show ?thesis by blast
qed

theorem archetype_store_append_only_witness:
  "(0::int) \<le> 0 \<and> (0::int) < Count [NewArchetype 0 \<lparr>componentTypes = [1]\<rparr>]
   \<and> Count (fst (run_ops [NewArchetype 0 \<lparr>componentTypes = [1]\<rparr>]
                   [OpPushEntity 0 7, OpPushArchetype 1 \<lparr>componentTypes = [2]\<rparr>, OpSwapRemove 0 0])) = 2
   \<and> (\<exists>a'. Archetype_at (fst (run_ops [NewArchetype 0 \<lparr>componentTypes = [1]\<rparr>]
                   [OpPushEntity 0 7, OpPushArchetype 1 \<lparr>componentTypes = [2]\<rparr>, OpSwapRemove 0 0])) 0 = Inr a'
          \<and> layout a' = \<lparr>componentTypes = [1]\<rparr> \<and> index a' = 0)"
  using archetype_store_append_only
          [of "[NewArchetype 0 \<lparr>componentTypes = [1]\<rparr>]"
              "[OpPushEntity 0 7, OpPushArchetype 1 \<lparr>componentTypes = [2]\<rparr>, OpSwapRemove 0 0]" 0
              "\<lparr>componentTypes = [1]\<rparr>"]
  by (simp add: Count_def Archetype_at_def NewArchetype_def PushArchetype_def PushEntity_def
                SwapRemove_def)

section \<open>Properties of query evaluation\<close>

lemma upt_0_Suc_map: "[0..<Suc n] = 0 # map Suc [0..<n]"
proof -
  have "[0..<Suc n] = 0 # [Suc 0..<Suc n]" by (simp add: upt_conv_Cons)
  also have "[Suc 0..<Suc n] = map Suc [0..<n]" by (simp only: map_Suc_upt)
  finally show ?thesis .
qed

lemma search_loop_eq:
  "search_loop f i ls =
     (map (\<lambda>k. i + int k) [0..<length ls],
      map (\<lambda>k. i + int k) (filter (\<lambda>k. MatchesLayout f (ls ! k)) [0..<length ls]))"
proof (induction ls arbitrary: i)
  case Nil
  show ?case by simp
next
  case (Cons l ls)
  have upt: "[0..<length (l # ls)] = 0 # map Suc [0..<length ls]"
    using upt_0_Suc_map [of "length ls"] by simp
  show ?case
    unfolding upt by (simp add: Cons.IH filter_map comp_def)
qed

lemma SearchFrom_eq:
  assumes "0 \<le> start"
  shows "SearchFrom layouts f start =
     Inr (map int [nat start..<length layouts],
          map int (filter (\<lambda>k. MatchesLayout f (layouts ! k)) [nat start..<length layouts]))"
proof (cases "nat start \<le> length layouts")
  case True
  let ?n = "nat start"
  have st: "start = int ?n" using assms by simp
  have shift: "[?n..<length layouts] = map (\<lambda>k. k + ?n) [0..<length layouts - ?n]"
    using True by (simp add: map_add_upt)
  have flt: "filter (\<lambda>k. MatchesLayout f (drop ?n layouts ! k)) [0..<length layouts - ?n]
           = filter (\<lambda>k. MatchesLayout f (layouts ! (k + ?n))) [0..<length layouts - ?n]"
    by (rule filter_cong) (auto simp: add.commute)
  have "search_loop f start (drop ?n layouts) =
     (map int [?n..<length layouts],
      map int (filter (\<lambda>k. MatchesLayout f (layouts ! k)) [?n..<length layouts]))"
    unfolding search_loop_eq shift
    using assms by (simp add: flt filter_map comp_def add.commute)
  then show ?thesis using assms by (simp add: SearchFrom_def)
next
  case False
  then show ?thesis using assms by (simp add: SearchFrom_def)
qed


lemma evaluateQuery_eq:
  assumes "0 \<le> seen (cache_of q w)"
  shows "evaluateQuery q w accessor =
     Inr (q\<lparr>layoutMatches := (layoutMatches q)(w \<mapsto>
              \<lparr>archetypes = archetypes (cache_of q w) @
                   map int (filter (\<lambda>k. MatchesLayout (filter_q q) (Index accessor ! k))
                              [nat (seen (cache_of q w))..<length (Index accessor)]),
               seen = Count (Archetypes accessor)\<rparr>)\<rparr>,
          archetypes (cache_of q w) @
            map int (filter (\<lambda>k. MatchesLayout (filter_q q) (Index accessor ! k))
                       [nat (seen (cache_of q w))..<length (Index accessor)]),
          map int [nat (seen (cache_of q w))..<length (Index accessor)])"
  using assms by (simp add: evaluateQuery_def SearchFrom_eq Let_def)

text \<open>
  C1. Every evaluation of a query against a world tests only the archetypes whose
  index is at or beyond the cache's mark \<open>seen\<close>, appends exactly the matching ones to
  the cached list, and sets the mark to the store's archetype count; the caches of
  other worlds and the filter are untouched. When the index holds one layout per
  archetype of the store, evaluating again with no archetype created in between tests
  nothing, leaves the query (hence the mark) as it is and returns the same list.
\<close>

theorem evaluateQuery_incremental:
  assumes "0 \<le> seen (cache_of q w)"
  shows "\<exists>q' result tested.
      evaluateQuery q w accessor = Inr (q', result, tested)
    \<and> tested = map int [nat (seen (cache_of q w))..<length (Index accessor)]
    \<and> (\<forall>i \<in> set tested. seen (cache_of q w) \<le> i)
    \<and> result = archetypes (cache_of q w)
                 @ filter (\<lambda>i. MatchesLayout (filter_q q) (Index accessor ! nat i)) tested
    \<and> cache_of q' w = \<lparr>archetypes = result, seen = Count (Archetypes accessor)\<rparr>
    \<and> filter_q q' = filter_q q
    \<and> (\<forall>w'. w' \<noteq> w \<longrightarrow> layoutMatches q' w' = layoutMatches q w')
    \<and> (length (Index accessor) = length (Archetypes accessor) \<longrightarrow>
         evaluateQuery q' w accessor = Inr (q', result, []))"
proof -
  let ?c = "cache_of q w"
  let ?tested = "map int [nat (seen ?c)..<length (Index accessor)]"
  let ?matched = "map int (filter (\<lambda>k. MatchesLayout (filter_q q) (Index accessor ! k))
                              [nat (seen ?c)..<length (Index accessor)])"
  let ?result = "archetypes ?c @ ?matched"
  let ?c' = "\<lparr>archetypes = ?result, seen = Count (Archetypes accessor)\<rparr>"
  let ?q' = "q\<lparr>layoutMatches := (layoutMatches q)(w \<mapsto> ?c')\<rparr>"
  have ev: "evaluateQuery q w accessor = Inr (?q', ?result, ?tested)"
    using assms by (rule evaluateQuery_eq)
  have lo: "\<forall>i \<in> set ?tested. seen ?c \<le> i" using assms by auto
  have res: "?result = archetypes ?c
                 @ filter (\<lambda>i. MatchesLayout (filter_q q) (Index accessor ! nat i)) ?tested"
    by (simp add: filter_map comp_def)
  have c': "cache_of ?q' w = ?c'" by (simp add: cache_of_def)
  have flt: "filter_q ?q' = filter_q q" by simp
  have others: "\<forall>w'. w' \<noteq> w \<longrightarrow> layoutMatches ?q' w' = layoutMatches q w'" by simp
  have again: "length (Index accessor) = length (Archetypes accessor) \<longrightarrow>
         evaluateQuery ?q' w accessor = Inr (?q', ?result, [])"
  proof
    assume len: "length (Index accessor) = length (Archetypes accessor)"
    have nn: "0 \<le> seen (cache_of ?q' w)" unfolding c' by (simp add: Count_def)
    have upd: "?q'\<lparr>layoutMatches := (layoutMatches ?q')(w \<mapsto> ?c')\<rparr> = ?q'" by simp
    show "evaluateQuery ?q' w accessor = Inr (?q', ?result, [])"
      unfolding evaluateQuery_eq [OF nn, of accessor] c'
      using len by (simp add: Count_def)
  qed
  from ev lo res c' flt others again show ?thesis by blast
qed


theorem evaluateQuery_incremental_witness:
  "0 \<le> seen (cache_of (NewQuery (Contains [1])) 0)
   \<and> evaluateQuery (NewQuery (Contains [1])) 0 example_accessor
       = Inr (\<lparr>layoutMatches = [0 \<mapsto> \<lparr>archetypes = [0, 2], seen = 3\<rparr>], filter_q = Contains [1]\<rparr>,
              [0, 2], [0, 1, 2])
   \<and> evaluateQuery \<lparr>layoutMatches = [0 \<mapsto> \<lparr>archetypes = [0, 2], seen = 3\<rparr>], filter_q = Contains [1]\<rparr>
        0 example_accessor
       = Inr (\<lparr>layoutMatches = [0 \<mapsto> \<lparr>archetypes = [0, 2], seen = 3\<rparr>], filter_q = Contains [1]\<rparr>,
              [0, 2], [])"
  using evaluateQuery_incremental [of "NewQuery (Contains [1])" 0 example_accessor]
  by (simp add: evaluateQuery_def SearchFrom_def cache_of_def NewQuery_def example_accessor_def
                Count_def)

lemma Next_in_range:
  assumes "0 \<le> i" and "i < int (length archs)"
  shows "Next (NewEntityIterator archs (i # rest))
           = Inr (entities (archs ! nat i), NewEntityIterator archs rest)"
  using assms by (simp add: Next_def NewEntityIterator_def Archetype_at_def Entities_def)

lemma each_loop_eq:
  assumes "\<forall>i \<in> set is. 0 \<le> i \<and> i < int (length archs)"
  shows "each_loop archs f is s
           = Inr (foldl (\<lambda>s e. f e s) s (concat (map (\<lambda>i. entities (archs ! nat i)) is)))"
  using assms
proof (induction "is" arbitrary: s)
  case Nil
  show ?case by simp
next
  case (Cons i rest)
  then have i: "0 \<le> i" "i < int (length archs)" by simp_all
  show ?case using Cons by (simp add: Next_in_range [OF i])
qed

lemma count_loop_eq:
  assumes "\<forall>i \<in> set is. 0 \<le> i \<and> i < int (length archs)"
  shows "count_loop archs is ret
           = Inr (ret + int (length (concat (map (\<lambda>i. entities (archs ! nat i)) is))))"
  using assms
proof (induction "is" arbitrary: ret)
  case Nil
  show ?case by simp
next
  case (Cons i rest)
  then have i: "0 \<le> i" "i < int (length archs)" by simp_all
  show ?case using Cons by (simp add: Next_in_range [OF i])
qed

lemma first_loop_eq:
  assumes "\<forall>i \<in> set is. 0 \<le> i \<and> i < int (length archs)"
  shows "first_loop archs is
           = Inr (map_option hd (find (\<lambda>es. es \<noteq> []) (map (\<lambda>i. entities (archs ! nat i)) is)))"
  using assms
proof (induction "is")
  case Nil
  show ?case by simp
next
  case (Cons i rest)
  then have i: "0 \<le> i" "i < int (length archs)" by simp_all
  show ?case using Cons by (simp add: Next_in_range [OF i] split: list.splits)
qed

lemma find_nonempty_concat:
  "map_option hd (find (\<lambda>es. es \<noteq> []) xss) = (case concat xss of [] \<Rightarrow> None | e # _ \<Rightarrow> Some e)"
proof (induction xss)
  case Nil
  show ?case by simp
next
  case (Cons a xss)
  then show ?case by (cases a) simp_all
qed

lemma find_nonempty_map:
  "map_option h (map_option hd (find (\<lambda>es. es \<noteq> []) (map g xs)))
     = map_option (\<lambda>a. h (hd (g a))) (find (\<lambda>a. g a \<noteq> []) xs)"
  by (induction xs) simp_all

lemma filter_nth_upt:
  "map (\<lambda>k. xs ! k) (filter (\<lambda>k. P (xs ! k)) [0..<length xs]) = filter P xs"
proof -
  have "filter P (map (\<lambda>k. xs ! k) [0..<length xs])
          = map (\<lambda>k. xs ! k) (filter (\<lambda>k. P (xs ! k)) [0..<length xs])"
    by (simp add: filter_map comp_def)
  then show ?thesis by (simp add: map_nth)
qed


lemma evaluateQuery_ok:
  assumes acc: "accessor_ok accessor" and c: "cache_ok q w accessor"
  shows "\<exists>q' tested.
      evaluateQuery q w accessor
        = Inr (q', map int (filter (\<lambda>k. MatchesLayout (filter_q q) (Index accessor ! k))
                              [0..<length (Archetypes accessor)]), tested)
    \<and> cache_ok q' w accessor \<and> filter_q q' = filter_q q"
proof -
  let ?c = "cache_of q w"
  let ?P = "\<lambda>k. MatchesLayout (filter_q q) (Index accessor ! k)"
  let ?n = "length (Archetypes accessor)"
  have len: "length (Index accessor) = ?n" using acc by (simp add: accessor_ok_def)
  from c have nn: "0 \<le> seen ?c" and le: "nat (seen ?c) \<le> ?n"
    and old: "archetypes ?c = map int (filter ?P [0..<nat (seen ?c)])"
    by (auto simp: cache_ok_def Let_def Count_def)
  have split: "[0..<?n] = [0..<nat (seen ?c)] @ [nat (seen ?c)..<?n]"
    using le by (metis le_add_diff_inverse upt_add_eq_append zero_le)
  let ?result = "map int (filter ?P [0..<?n])"
  have res: "archetypes ?c @ map int (filter ?P [nat (seen ?c)..<length (Index accessor)]) = ?result"
  proof -
    have "filter ?P [0..<?n] = filter ?P [0..<nat (seen ?c)] @ filter ?P [nat (seen ?c)..<?n]"
      by (metis split filter_append)
    then show ?thesis unfolding len old by simp
  qed
  let ?c' = "\<lparr>archetypes = ?result, seen = Count (Archetypes accessor)\<rparr>"
  let ?q' = "q\<lparr>layoutMatches := (layoutMatches q)(w \<mapsto> ?c')\<rparr>"
  have ev: "evaluateQuery q w accessor = Inr (?q', ?result, map int [nat (seen ?c)..<length (Index accessor)])"
    unfolding evaluateQuery_eq [OF nn, of accessor] res ..
  have c': "cache_of ?q' w = ?c'" by (simp add: cache_of_def)
  have ok: "cache_ok ?q' w accessor"
    unfolding cache_ok_def c' by (simp add: Count_def)
  have "filter_q ?q' = filter_q q" by simp
  with ev ok show ?thesis by blast
qed

text \<open>
  The two state conditions hold for a new query and survive the creation of an
  archetype (a layout pushed to the index with the archetype pushed to the store);
  \<open>evaluateQuery_ok\<close> above keeps the cache condition.
\<close>

lemma cache_ok_NewQuery: "cache_ok (NewQuery f) w accessor"
  by (simp add: cache_ok_def cache_of_def NewQuery_def Count_def)

lemma accessor_ok_push:
  assumes "accessor_ok accessor"
  shows "accessor_ok \<lparr>Index = Index accessor @ [Components l],
                      Archetypes = PushArchetype (Archetypes accessor) i l\<rparr>"
  using assms by (simp add: accessor_ok_def PushArchetype_def)

lemma cache_ok_push:
  assumes acc: "accessor_ok accessor" and c: "cache_ok q w accessor"
  shows "cache_ok q w \<lparr>Index = Index accessor @ [Components l],
                        Archetypes = PushArchetype (Archetypes accessor) i l\<rparr>"
proof -
  let ?c = "cache_of q w"
  have len: "length (Index accessor) = length (Archetypes accessor)"
    using acc by (simp add: accessor_ok_def)
  from c have nn: "0 \<le> seen ?c" and le: "nat (seen ?c) \<le> length (Archetypes accessor)"
    and old: "archetypes ?c = map int (filter (\<lambda>k. MatchesLayout (filter_q q) (Index accessor ! k))
                                        [0..<nat (seen ?c)])"
    by (auto simp: cache_ok_def Let_def Count_def)
  have "filter (\<lambda>k. MatchesLayout (filter_q q) ((Index accessor @ [Components l]) ! k))
               [0..<nat (seen ?c)]
          = filter (\<lambda>k. MatchesLayout (filter_q q) (Index accessor ! k)) [0..<nat (seen ?c)]"
    using le len by (intro filter_cong) (auto simp: nth_append)
  with nn le old show ?thesis
    by (simp add: cache_ok_def Let_def Count_def PushArchetype_def)
qed

lemma matching_indices_entities:
  assumes "accessor_ok accessor"
  shows "map (\<lambda>i. entities (Archetypes accessor ! nat i))
           (map int (filter (\<lambda>k. MatchesLayout f (Index accessor ! k))
                       [0..<length (Archetypes accessor)]))
         = map Entities (matching_archetypes f accessor)"
proof -
  let ?xs = "Archetypes accessor"
  let ?P = "\<lambda>a. MatchesLayout f (Components (layout a))"
  have "filter (\<lambda>k. MatchesLayout f (Index accessor ! k)) [0..<length ?xs]
          = filter (\<lambda>k. ?P (?xs ! k)) [0..<length ?xs]"
    using assms by (intro filter_cong) (auto simp: accessor_ok_def)
  then have "map (\<lambda>i. entities (?xs ! nat i))
           (map int (filter (\<lambda>k. MatchesLayout f (Index accessor ! k)) [0..<length ?xs]))
        = map entities (map (\<lambda>k. ?xs ! k) (filter (\<lambda>k. ?P (?xs ! k)) [0..<length ?xs]))"
    by (simp add: comp_def)
  also have "\<dots> = map entities (filter ?P ?xs)"
    using filter_nth_upt [of ?xs ?P] by simp
  finally show ?thesis by (simp add: matching_archetypes_def Entities_def [abs_def])
qed

lemma matching_indices_in_range:
  "\<forall>i \<in> set (map int (filter P [0..<n])). 0 \<le> i \<and> i < int n"
  by auto


lemma foldl_record_visit:
  "foldl (\<lambda>s e. record_visit (g e) s) s es = s @ map g es"
  by (induction es arbitrary: s) (simp_all add: record_visit_def)

lemma Query_Each_core:
  assumes "accessor_ok (storageAccessor w)" and "cache_ok q (ID w) (storageAccessor w)"
  shows "\<exists>q' res tested.
           evaluateQuery q (ID w) (storageAccessor w) = Inr (q', res, tested)
         \<and> Query_Each q w callback s
             = Inr (q', foldl (\<lambda>s e. callback (Entry w e) s) s
                          (matching_entities (filter_q q) (storageAccessor w)))"
proof -
  let ?acc = "storageAccessor w"
  let ?res = "map int (filter (\<lambda>k. MatchesLayout (filter_q q) (Index ?acc ! k))
                              [0..<length (Archetypes ?acc)])"
  from evaluateQuery_ok [OF assms] obtain q' tested where
    ev: "evaluateQuery q (ID w) ?acc = Inr (q', ?res, tested)"
    by blast
  have ents: "map (\<lambda>i. entities (Archetypes ?acc ! nat i)) ?res
                = map Entities (matching_archetypes (filter_q q) ?acc)"
    by (rule matching_indices_entities [OF assms(1)])
  have loop: "each_loop (Archetypes ?acc) (\<lambda>e. callback (Entry w e)) ?res s
        = Inr (foldl (\<lambda>s e. callback (Entry w e) s) s
                 (concat (map Entities (matching_archetypes (filter_q q) ?acc))))"
    unfolding ents [symmetric] by (rule each_loop_eq) (rule matching_indices_in_range)
  have "Query_Each q w callback s
          = Inr (q', foldl (\<lambda>s e. callback (Entry w e) s) s
                       (matching_entities (filter_q q) ?acc))"
    unfolding Query_Each_def Let_def ev matching_entities_def
    by (simp add: loop)
  with ev show ?thesis by blast
qed

lemma range_entities_no_removal:
  assumes "\<forall>e st s. fst (callback e st s) = []" and "\<forall>i \<in> set is. i < length arr"
  shows "range_entities callback entry a is st arr s
           = Inr (st, foldl (\<lambda>s i. snd (callback (entry (arr ! i)) st s)) s is)"
  using assms(2)
proof (induction "is" arbitrary: s)
  case Nil
  show ?case by simp
next
  case (Cons i rest)
  from assms(1) have "fst (callback (entry (arr ! i)) st s) = []" by blast
  then obtain s' where cb: "callback (entry (arr ! i)) st s = ([], s')"
    by (cases "callback (entry (arr ! i)) st s") simp
  with Cons show ?case by simp
qed

lemma foldl_nth_upt:
  "foldl (\<lambda>s i. g (xs ! i) s) s [0..<length xs] = foldl (\<lambda>s e. g e s) s xs"
proof -
  have "foldl (\<lambda>s e. g e s) s (map (\<lambda>i. xs ! i) [0..<length xs])
          = foldl (\<lambda>s i. g (xs ! i) s) s [0..<length xs]"
    by (simp add: foldl_map)
  then show ?thesis by (simp add: map_nth)
qed





lemma each_loop_removing_agrees:
  assumes "\<forall>e st s. fst (callback e st s) = []"
  shows "each_loop_removing callback entry st is s
           = (case each_loop st (\<lambda>e s. snd (callback (entry e) st s)) is s of
                Inl p \<Rightarrow> Inl p
              | Inr s' \<Rightarrow> Inr (st, s'))"
proof (induction "is" arbitrary: s)
  case Nil
  show ?case by simp
next
  case (Cons i rest)
  show ?case
  proof (cases "Next (NewEntityIterator st (i # rest))")
    case (Inl p)
    then show ?thesis by simp
  next
    case (Inr r)
    then obtain es it' where n: "Next (NewEntityIterator st (i # rest)) = Inr (es, it')"
      by (cases r) simp
    have "range_entities callback entry i [0..<length es] st es s
          = Inr (st, foldl (\<lambda>s k. snd (callback (entry (es ! k)) st s)) s [0..<length es])"
      by (rule range_entities_no_removal [OF assms]) simp
    also have "foldl (\<lambda>s k. snd (callback (entry (es ! k)) st s)) s [0..<length es]
               = foldl (\<lambda>s e. snd (callback (entry e) st s)) s es"
      by (rule foldl_nth_upt)
    finally have r: "range_entities callback entry i [0..<length es] st es s
          = Inr (st, foldl (\<lambda>s e. snd (callback (entry e) st s)) s es)" .
    show ?thesis by (simp add: n r Cons.IH)
  qed
qed


text \<open>
  C10. \<open>First\<close> answers \<open>ok = false\<close> (here \<open>None\<close>) exactly when \<open>Count\<close> is zero;
  otherwise its entry is the first entity of the first matching archetype, in cached
  order, whose entity list is not empty, which is the entity \<open>Each\<close> visits first.
\<close>

theorem Query_First_Count_agree:
  assumes "accessor_ok (storageAccessor w)" and "cache_ok q (ID w) (storageAccessor w)"
  shows "\<exists>q' n r visited.
           Query_Count q w = Inr (q', n)
         \<and> Query_First q w = Inr (q', r)
         \<and> Query_Each q w record_visit [] = Inr (q', visited)
         \<and> (r = None \<longleftrightarrow> n = 0)
         \<and> visited = map (Entry w) (matching_entities (filter_q q) (storageAccessor w))
         \<and> n = int (length visited)
         \<and> r = (case visited of [] \<Rightarrow> None | e # _ \<Rightarrow> Some e)
         \<and> r = map_option (\<lambda>a. Entry w (hd (Entities a)))
                  (find (\<lambda>a. Entities a \<noteq> []) (matching_archetypes (filter_q q) (storageAccessor w)))"
proof -
  let ?acc = "storageAccessor w"
  let ?res = "map int (filter (\<lambda>k. MatchesLayout (filter_q q) (Index ?acc ! k))
                              [0..<length (Archetypes ?acc)])"
  let ?ms = "matching_archetypes (filter_q q) ?acc"
  let ?es = "matching_entities (filter_q q) ?acc"
  from evaluateQuery_ok [OF assms] obtain q' tested where
    ev: "evaluateQuery q (ID w) ?acc = Inr (q', ?res, tested)"
    by blast
  have ents: "map (\<lambda>i. entities (Archetypes ?acc ! nat i)) ?res = map Entities ?ms"
    by (rule matching_indices_entities [OF assms(1)])
  have cl: "count_loop (Archetypes ?acc) ?res 0
              = Inr (0 + int (length (concat (map Entities ?ms))))"
    unfolding ents [symmetric] by (rule count_loop_eq) (rule matching_indices_in_range)
  have cnt: "Query_Count q w = Inr (q', int (length ?es))"
    unfolding Query_Count_def Let_def ev matching_entities_def
    by (simp add: cl)
  have fl: "first_loop (Archetypes ?acc) ?res
              = Inr (map_option hd (find (\<lambda>es. es \<noteq> []) (map Entities ?ms)))"
    unfolding ents [symmetric] by (rule first_loop_eq) (rule matching_indices_in_range)
  have fst: "Query_First q w
               = Inr (q', map_option (Entry w) (map_option hd (find (\<lambda>es. es \<noteq> []) (map Entities ?ms))))"
  proof (cases "?res = []")
    case True
    then have "map Entities ?ms = []" using ents by simp
    then show ?thesis
      unfolding Query_First_def Let_def ev
      using True by (simp add: HasNext_def NewEntityIterator_def)
  next
    case False
    then show ?thesis
      unfolding Query_First_def Let_def ev
      by (simp add: HasNext_def NewEntityIterator_def fl)
  qed
  let ?r = "map_option (Entry w) (map_option hd (find (\<lambda>es. es \<noteq> []) (map Entities ?ms)))"
  have each: "Query_Each q w record_visit [] = Inr (q', map (Entry w) ?es)"
  proof -
    from Query_Each_core [OF assms, of record_visit "[]"] ev
    show ?thesis by (simp add: foldl_record_visit)
  qed
  have r_case: "?r = (case map (Entry w) ?es of [] \<Rightarrow> None | e # _ \<Rightarrow> Some e)"
  proof -
    have "map_option hd (find (\<lambda>es. es \<noteq> []) (map Entities ?ms))
            = (case ?es of [] \<Rightarrow> None | e # _ \<Rightarrow> Some e)"
      unfolding matching_entities_def by (rule find_nonempty_concat)
    then have "?r = map_option (Entry w) (case ?es of [] \<Rightarrow> None | e # _ \<Rightarrow> Some e)"
      by (rule arg_cong)
    also have "\<dots> = (case map (Entry w) ?es of [] \<Rightarrow> None | e # _ \<Rightarrow> Some e)"
      by (cases ?es) simp_all
    finally show ?thesis .
  qed
  have r_none: "?r = None \<longleftrightarrow> int (length ?es) = 0"
    unfolding r_case by (cases ?es) simp_all
  have r_find: "?r = map_option (\<lambda>a. Entry w (hd (Entities a))) (find (\<lambda>a. Entities a \<noteq> []) ?ms)"
    by (rule find_nonempty_map)
  from cnt fst each r_none r_case r_find show ?thesis
    by (intro exI [of _ q'] exI [of _ "int (length ?es)"] exI [of _ ?r]
              exI [of _ "map (Entry w) ?es"]) simp
qed


theorem Query_First_Count_agree_witness:
  "accessor_ok (storageAccessor example_world)
   \<and> cache_ok (NewQuery (Contains [1])) (ID example_world) (storageAccessor example_world)
   \<and> (\<exists>q'. Query_Count (NewQuery (Contains [1])) example_world = Inr (q', 3)
           \<and> Query_First (NewQuery (Contains [1])) example_world = Inr (q', Some 10))"
proof -
  have a: "accessor_ok (storageAccessor example_world)"
    by (simp add: accessor_ok_def example_world_def example_accessor_def Components_def)
  have c: "cache_ok (NewQuery (Contains [1])) (ID example_world) (storageAccessor example_world)"
    by (simp add: cache_ok_def cache_of_def NewQuery_def Count_def)
  have m: "matching_entities (filter_q (NewQuery (Contains [1]))) (storageAccessor example_world)
              = [10, 11, 30]"
    by (simp add: matching_entities_def matching_archetypes_def example_accessor_def
                  Components_def Entities_def NewQuery_def example_world_def)
  from Query_First_Count_agree [OF a c]
  obtain q' n r visited where
    cnt: "Query_Count (NewQuery (Contains [1])) example_world = Inr (q', n)"
    and fst: "Query_First (NewQuery (Contains [1])) example_world = Inr (q', r)"
    and vis: "visited = map (Entry example_world)
                (matching_entities (filter_q (NewQuery (Contains [1]))) (storageAccessor example_world))"
    and n: "n = int (length visited)"
    and r: "r = (case visited of [] \<Rightarrow> None | e # _ \<Rightarrow> Some e)"
    by blast
  from vis have v: "visited = [10, 11, 30]" unfolding m by (simp add: example_world_def)
  from n r have "n = 3" and "r = Some 10" unfolding v by simp_all
  with cnt fst a c show ?thesis by blast
qed

section \<open>Properties of the CQL compiler\<close>

lemma parse_names_append:
  "parse_names reg ts = Some (cs, rest) \<Longrightarrow> parse_names reg (ts @ x) = Some (cs, rest @ x)"
proof (induction reg ts arbitrary: cs rule: parse_names.induct)
  case (1 reg n ts)
  from "1.prems" obtain c cs' where c: "reg n = Some c"
    and p: "parse_names reg ts = Some (cs', rest)" and cs: "cs = c # cs'"
    by (auto split: option.splits)
  from "1.IH" [OF c p] show ?case by (simp add: c cs)
next
  case (2 reg n ts)
  then show ?case by (auto split: option.splits)
qed simp_all

lemma parse_append:
  "(\<forall>f rest. parse_value reg ts = Some (f, rest) \<longrightarrow>
       parse_value reg (ts @ x) = Some (f, rest @ x))"
  "(\<forall>f t rest. parse_term reg ts = Some (f, t # rest) \<and> t \<noteq> TAnd \<and> t \<noteq> TOr \<longrightarrow>
       parse_term reg (ts @ x) = Some (f, t # rest @ x))"
  "(\<forall>f t rest. parse_ops reg acc ts = Some (f, t # rest) \<and> t \<noteq> TAnd \<and> t \<noteq> TOr \<longrightarrow>
       parse_ops reg acc (ts @ x) = Some (f, t # rest @ x))"
proof (induction reg ts and reg ts and reg acc ts rule: parse_value_parse_term_parse_ops.induct)
  case (1 reg ts)
  then show ?case by (auto split: option.splits simp: parse_names_append)
next
  case (2 reg ts)
  then show ?case by (auto split: option.splits simp: parse_names_append)
next
  case (3 reg ts)
  then show ?case by (auto split: option.splits)
next
  case (4 reg ts)
  then show ?case by (auto split: option.splits list.splits token.splits)
qed (auto split: option.splits if_splits)


lemma parse_value_append:
  "parse_value reg ts = Some (f, rest) \<Longrightarrow> parse_value reg (ts @ x) = Some (f, rest @ x)"
  using parse_append(1) by blast

lemma parse_ops_continue_aux:
  "True" "True"
  "(\<forall>f. parse_ops reg acc ts = Some (f, []) \<longrightarrow>
       parse_ops reg acc (ts @ x) = parse_ops reg f x)"
  by (induction reg ts and reg ts and reg acc ts rule: parse_value_parse_term_parse_ops.induct)
     (auto split: option.splits if_splits simp: parse_value_append)

lemma parse_ops_continue:
  "parse_ops reg acc ts = Some (f, []) \<Longrightarrow> parse_ops reg acc (ts @ x) = parse_ops reg f x"
  using parse_ops_continue_aux(3) by blast

lemma parse_ops_any_acc_aux:
  "True" "True"
  "(\<forall>acc' f r. parse_ops reg acc ts = Some (f, r) \<longrightarrow>
       (\<exists>f'. parse_ops reg acc' ts = Some (f', r)))"
  by (induction reg ts and reg ts and reg acc ts rule: parse_value_parse_term_parse_ops.induct)
     (auto split: option.splits if_splits)

lemma parse_ops_any_acc:
  "parse_ops reg acc ts = Some (f, r) \<Longrightarrow> \<exists>f'. parse_ops reg acc' ts = Some (f', r)"
  using parse_ops_any_acc_aux(3) by blast

lemma parse_term_continue:
  assumes "parse_term reg ts = Some (f, [])"
  shows "parse_term reg (ts @ x) = parse_ops reg f x"
proof -
  from assms obtain g r where v: "parse_value reg ts = Some (g, r)"
    and len: "length r < length ts" and ops: "parse_ops reg g r = Some (f, [])"
    by (auto split: option.splits if_splits)
  from v have "parse_value reg (ts @ x) = Some (g, r @ x)" by (rule parse_value_append)
  moreover from ops have "parse_ops reg g (r @ x) = parse_ops reg f x" by (rule parse_ops_continue)
  ultimately show ?thesis using len by simp
qed


lemma parse_names_consumes:
  "parse_names reg ts = Some (cs, rest) \<Longrightarrow> length rest < length ts"
proof (induction reg ts arbitrary: cs rule: parse_names.induct)
  case (1 reg n ts)
  from "1.prems" obtain c cs' where c: "reg n = Some c"
    and p: "parse_names reg ts = Some (cs', rest)"
    by (auto split: option.splits)
  from "1.IH" [OF c p] show ?case by simp
next
  case (2 reg n ts)
  then show ?case by (auto split: option.splits)
qed simp_all

lemma parse_consumes:
  "(\<forall>f rest. parse_value reg ts = Some (f, rest) \<longrightarrow> length rest < length ts)"
  "(\<forall>f rest. parse_term reg ts = Some (f, rest) \<longrightarrow> length rest < length ts)"
  "(\<forall>f rest. parse_ops reg acc ts = Some (f, rest) \<longrightarrow> length rest \<le> length ts)"
proof (induction reg ts and reg ts and reg acc ts rule: parse_value_parse_term_parse_ops.induct)
  case (1 reg ts)
  then show ?case by (auto split: option.splits dest: parse_names_consumes)
next
  case (2 reg ts)
  then show ?case by (auto split: option.splits dest: parse_names_consumes)
next
  case (3 reg ts)
  then show ?case by (auto split: option.splits)
next
  case (4 reg ts)
  show ?case
  proof (intro allI impI)
    fix f rest
    assume "parse_value reg (TLParen # ts) = Some (f, rest)"
    then obtain r where t: "parse_term reg ts = Some (f, TRParen # rest)"
      by (simp split: option.splits list.splits token.splits prod.splits)
    with 4 have "length (TRParen # rest) < length ts" by blast
    then show "length rest < length (TLParen # ts)" by simp
  qed
qed (fastforce split: option.splits if_splits)+

lemma compileCQL_Some:
  "compileCQL reg ts = Some f \<longleftrightarrow> parse_term reg ts = Some (f, [])"
  by (auto simp: compileCQL_def split: option.splits list.splits)

lemma compileCQL_parse_term:
  "parse_term reg ts = Some (f, []) \<Longrightarrow> compileCQL reg ts = Some f"
  by (simp add: compileCQL_Some)

lemma parse_term_op_term:
  assumes a: "parse_term reg a = Some (fa, [])" and b: "parse_term reg b = Some (fb, [])"
    and op: "op = TAnd \<or> op = TOr"
  shows "\<exists>h. parse_term reg (a @ op # b) = Some (h, [])"
proof -
  from b obtain g r where v: "parse_value reg b = Some (g, r)"
    and len: "length r < length b" and ops: "parse_ops reg g r = Some (fb, [])"
    by (auto split: option.splits if_splits)
  have cont: "parse_term reg (a @ op # b) = parse_ops reg fa (op # b)"
    using a by (rule parse_term_continue)
  from op show ?thesis
  proof
    assume "op = TAnd"
    moreover from parse_ops_any_acc [OF ops, of "And_filter fa g"]
    obtain h where "parse_ops reg (And_filter fa g) r = Some (h, [])" by blast
    ultimately show ?thesis using cont v len by simp
  next
    assume "op = TOr"
    moreover from parse_ops_any_acc [OF ops, of "Or_filter fa g"]
    obtain h where "parse_ops reg (Or_filter fa g) r = Some (h, [])" by blast
    ultimately show ?thesis using cont v len by simp
  qed
qed

lemma parse_value_paren:
  assumes "parse_term reg t = Some (h, [])"
  shows "parse_value reg (TLParen # t @ TRParen # x) = Some (h, x)"
proof -
  have "parse_term reg (t @ TRParen # x) = parse_ops reg h (TRParen # x)"
    using assms by (rule parse_term_continue)
  then show ?thesis by simp
qed

lemma compileCQL_paren_prefix:
  assumes t: "parse_term reg t = Some (h, [])" and c: "parse_term reg c = Some (fc, [])"
    and op: "op = TAnd \<or> op = TOr"
  shows "compileCQL reg (TLParen # t @ TRParen # op # c) = compileCQL reg (t @ op # c)"
    and "compileCQL reg (t @ op # c) \<noteq> None"
proof -
  have flat: "parse_term reg (t @ op # c) = parse_ops reg h (op # c)"
    using t by (rule parse_term_continue)
  have "parse_term reg (TLParen # t @ TRParen # op # c)
          = (case parse_value reg (TLParen # t @ TRParen # op # c) of
               None \<Rightarrow> None
             | Some (f, rest) \<Rightarrow>
                 if length rest < length (TLParen # t @ TRParen # op # c)
                 then parse_ops reg f rest else None)"
    by (rule parse_term.simps)
  also have "\<dots> = parse_ops reg h (op # c)"
    unfolding parse_value_paren [OF t] by simp
  finally have "parse_term reg (TLParen # t @ TRParen # op # c) = parse_ops reg h (op # c)" .
  with flat show "compileCQL reg (TLParen # t @ TRParen # op # c) = compileCQL reg (t @ op # c)"
    by (simp add: compileCQL_def)
  from parse_term_op_term [OF t c op] obtain k where "parse_term reg (t @ op # c) = Some (k, [])"
    by blast
  then show "compileCQL reg (t @ op # c) \<noteq> None" by (simp add: compileCQL_def)
qed

lemma compileCQL_primaries:
  assumes a: "parse_term reg a = Some (fa, [])"
    and b: "parse_value reg b = Some (fb, [])" and c: "parse_value reg c = Some (fc, [])"
  shows "compileCQL reg (a @ TAnd # b @ TOr # c) = Some (Or_filter (And_filter fa fb) fc)"
    and "compileCQL reg (a @ TOr # b @ TAnd # c) = Some (And_filter (Or_filter fa fb) fc)"
proof -
  have b1: "parse_value reg (b @ TOr # c) = Some (fb, TOr # c)"
    using parse_value_append [OF b, of "TOr # c"] by simp
  have b2: "parse_value reg (b @ TAnd # c) = Some (fb, TAnd # c)"
    using parse_value_append [OF b, of "TAnd # c"] by simp
  have "parse_term reg (a @ TAnd # b @ TOr # c) = parse_ops reg fa (TAnd # b @ TOr # c)"
    using a by (rule parse_term_continue)
  then show "compileCQL reg (a @ TAnd # b @ TOr # c) = Some (Or_filter (And_filter fa fb) fc)"
    by (simp add: compileCQL_def b1 c)
  have "parse_term reg (a @ TOr # b @ TAnd # c) = parse_ops reg fa (TOr # b @ TAnd # c)"
    using a by (rule parse_term_continue)
  then show "compileCQL reg (a @ TOr # b @ TAnd # c) = Some (And_filter (Or_filter fa fb) fc)"
    by (simp add: compileCQL_def b2 c)
qed

text \<open>
  C3. The compiler folds a flat sequence of \<open>&\<close> and \<open>|\<close> from left to right, with
  no precedence between them: for all query texts \<open>A\<close>, \<open>B\<close>, \<open>C\<close> that compile, the
  text \<open>A & B | C\<close> compiles, and to the same filter tree as \<open>(A & B) | C\<close>, and
  \<open>A | B & C\<close> compiles, and to the same filter tree as \<open>(A | B) & C\<close>. When \<open>B\<close>
  and \<open>C\<close> are primaries the trees are \<open>Or (And A B) C\<close> and \<open>And (Or A B) C\<close>.
\<close>

theorem CQL_left_to_right_fold:
  assumes a: "compileCQL reg a = Some fa" and b: "compileCQL reg b = Some fb"
    and c: "compileCQL reg c = Some fc"
  shows "compileCQL reg (a @ TAnd # b @ TOr # c)
           = compileCQL reg (TLParen # a @ TAnd # b @ TRParen # TOr # c)
       \<and> compileCQL reg (a @ TOr # b @ TAnd # c)
           = compileCQL reg (TLParen # a @ TOr # b @ TRParen # TAnd # c)
       \<and> compileCQL reg (a @ TAnd # b @ TOr # c) \<noteq> None
       \<and> compileCQL reg (a @ TOr # b @ TAnd # c) \<noteq> None
       \<and> (parse_value reg b = Some (fb, []) \<and> parse_value reg c = Some (fc, []) \<longrightarrow>
            compileCQL reg (a @ TAnd # b @ TOr # c) = Some (Or_filter (And_filter fa fb) fc)
          \<and> compileCQL reg (a @ TOr # b @ TAnd # c) = Some (And_filter (Or_filter fa fb) fc))"
proof -
  from a b c have pa: "parse_term reg a = Some (fa, [])"
    and pb: "parse_term reg b = Some (fb, [])" and pc: "parse_term reg c = Some (fc, [])"
    by (simp_all add: compileCQL_Some)
  from parse_term_op_term [OF pa pb, of TAnd]
  obtain h1 where h1: "parse_term reg (a @ TAnd # b) = Some (h1, [])" by blast
  from parse_term_op_term [OF pa pb, of TOr]
  obtain h2 where h2: "parse_term reg (a @ TOr # b) = Some (h2, [])" by blast
  have e1: "compileCQL reg (a @ TAnd # b @ TOr # c)
           = compileCQL reg (TLParen # a @ TAnd # b @ TRParen # TOr # c)"
    and d1: "compileCQL reg (a @ TAnd # b @ TOr # c) \<noteq> None"
    using compileCQL_paren_prefix [OF h1 pc, of TOr] by simp_all
  have e2: "compileCQL reg (a @ TOr # b @ TAnd # c)
           = compileCQL reg (TLParen # a @ TOr # b @ TRParen # TAnd # c)"
    and d2: "compileCQL reg (a @ TOr # b @ TAnd # c) \<noteq> None"
    using compileCQL_paren_prefix [OF h2 pc, of TAnd] by simp_all
  have prim: "parse_value reg b = Some (fb, []) \<and> parse_value reg c = Some (fc, []) \<longrightarrow>
            compileCQL reg (a @ TAnd # b @ TOr # c) = Some (Or_filter (And_filter fa fb) fc)
          \<and> compileCQL reg (a @ TOr # b @ TAnd # c) = Some (And_filter (Or_filter fa fb) fc)"
    using compileCQL_primaries [OF pa] by blast
  from e1 e2 d1 d2 prim show ?thesis by blast
qed


theorem CQL_left_to_right_fold_witness:
  "compileCQL example_registry [TContains, TLParen, TName ''Health'', TRParen] = Some (Contains [1])
   \<and> compileCQL example_registry [TExact, TLParen, TName ''Attack'', TRParen] = Some (Exact [2])
   \<and> compileCQL example_registry [TNot, TContains, TLParen, TName ''Attack'', TRParen]
        = Some (Not_filter (Contains [2]))
   \<and> compileCQL example_registry
        ([TContains, TLParen, TName ''Health'', TRParen] @ TOr #
         [TExact, TLParen, TName ''Attack'', TRParen] @ TAnd #
         [TNot, TContains, TLParen, TName ''Attack'', TRParen])
        = Some (And_filter (Or_filter (Contains [1]) (Exact [2])) (Not_filter (Contains [2])))
   \<and> compileCQL example_registry
        (TLParen # [TContains, TLParen, TName ''Health'', TRParen] @ TOr #
         [TExact, TLParen, TName ''Attack'', TRParen] @ TRParen # TAnd #
         [TNot, TContains, TLParen, TName ''Attack'', TRParen])
        = Some (And_filter (Or_filter (Contains [1]) (Exact [2])) (Not_filter (Contains [2])))"
proof -
  have a: "compileCQL example_registry [TContains, TLParen, TName ''Health'', TRParen]
             = Some (Contains [1])"
    by (simp add: compileCQL_def example_registry_def)
  have b: "compileCQL example_registry [TExact, TLParen, TName ''Attack'', TRParen]
             = Some (Exact [2])"
    by (simp add: compileCQL_def example_registry_def)
  have c: "compileCQL example_registry [TNot, TContains, TLParen, TName ''Attack'', TRParen]
             = Some (Not_filter (Contains [2]))"
    by (simp add: compileCQL_def example_registry_def)
  have pb: "parse_value example_registry [TExact, TLParen, TName ''Attack'', TRParen]
             = Some (Exact [2], [])"
    by (simp add: example_registry_def)
  have pc: "parse_value example_registry [TNot, TContains, TLParen, TName ''Attack'', TRParen]
             = Some (Not_filter (Contains [2]), [])"
    by (simp add: example_registry_def)
  note t = CQL_left_to_right_fold [OF a b c]
  from t pb pc have flat: "compileCQL example_registry
        ([TContains, TLParen, TName ''Health'', TRParen] @ TOr #
         [TExact, TLParen, TName ''Attack'', TRParen] @ TAnd #
         [TNot, TContains, TLParen, TName ''Attack'', TRParen])
        = Some (And_filter (Or_filter (Contains [1]) (Exact [2])) (Not_filter (Contains [2])))"
    by blast
  from t have eq: "compileCQL example_registry
        ([TContains, TLParen, TName ''Health'', TRParen] @ TOr #
         [TExact, TLParen, TName ''Attack'', TRParen] @ TAnd #
         [TNot, TContains, TLParen, TName ''Attack'', TRParen])
      = compileCQL example_registry
        (TLParen # [TContains, TLParen, TName ''Health'', TRParen] @ TOr #
         [TExact, TLParen, TName ''Attack'', TRParen] @ TRParen # TAnd #
         [TNot, TContains, TLParen, TName ''Attack'', TRParen])"
    by blast
  from a b c flat trans [OF eq [symmetric] flat] show ?thesis by blast
qed

section \<open>Properties of the shard iterator\<close>

lemma decode_txs_unknown:
  assumes "decode_txs get txs1 = Inr b1" and "get (TxId tx) = None"
  shows "decode_txs get (txs1 @ tx # txs2) = Inl (UnknownMessage (TxId tx))"
  using assms
proof (induction txs1 arbitrary: b1)
  case Nil
  then show ?case by simp
next
  case (Cons t ts)
  from Cons.prems(1) obtain m v bs where "get (TxId t) = Some m"
    and "Decode m (GameShardTransaction t) = Some v" and "decode_txs get ts = Inr bs"
    by (auto split: option.splits sum.splits)
  with Cons.IH [OF _ Cons.prems(2)] show ?case by simp
qed

lemma each_epochs_append:
  assumes "each_epochs get fn stop pre s = Continue s'"
  shows "each_epochs get fn stop (pre @ rest) s = each_epochs get fn stop rest s'"
  using assms
proof (induction pre arbitrary: s)
  case Nil
  then show ?case by simp
next
  case (Cons ep eps)
  then show ?case by (auto split: if_splits sum.splits)
qed

text \<open>
  C7. When the iteration comes to a transaction whose message ID the registry lookup
  does not know (the transactions before it in the epoch decode, the epochs before it
  in the page were processed, the epoch is before the stop tick), \<open>Each\<close> returns the
  unknown-message error carrying that ID; the callback is not called for that epoch
  or any later one and no further feed request is made, so nothing is skipped.
\<close>

theorem Each_unknown_message_fatal:
  assumes page: "querier it q \<lparr>Namespace = namespace it, PageKey = key\<rparr> = (Inr res, q')"
    and eps: "Epochs res = pre @ ep # post"
    and pre: "each_epochs (getMessageByID it) fn stop pre s = Continue s'"
    and instop: "\<not> past_stop stop ep"
    and txs: "Txs ep = txs1 @ tx # txs2"
    and known: "decode_txs (getMessageByID it) txs1 = Inr b1"
    and unk: "getMessageByID it (TxId tx) = None"
  shows "each_pages it fn stop key q s = Some (Some (UnknownMessage (TxId tx)), q', s')
       \<and> (range_ok r \<and> stop = stop_tick r \<and> key = Some (put_uint64_be (start_tick r)) \<longrightarrow>
            Iterator_Each it fn r q s = Some (Some (UnknownMessage (TxId tx)), q', s'))"
proof -
  have d: "decode_txs (getMessageByID it) (Txs ep) = Inl (UnknownMessage (TxId tx))"
    unfolding txs using known unk by (rule decode_txs_unknown)
  have "each_epochs (getMessageByID it) fn stop (Epochs res) s
          = each_epochs (getMessageByID it) fn stop (ep # post) s'"
    unfolding eps using pre by (rule each_epochs_append)
  also have "\<dots> = Fail (UnknownMessage (TxId tx)) s'"
    using instop d by simp
  finally have e: "each_epochs (getMessageByID it) fn stop (Epochs res) s
                     = Fail (UnknownMessage (TxId tx)) s'" .
  have p: "each_pages it fn stop key q s = Some (Some (UnknownMessage (TxId tx)), q', s')"
    by (subst each_pages.simps) (simp add: page e)
  then show ?thesis by (auto simp: Iterator_Each_def)
qed

theorem Each_unknown_message_fatal_witness:
  "Iterator_Each not_found_iterator record_epoch NoRange (0, None) []
     = Some (Some (UnknownMessage 1),
             (1, Some \<lparr>Namespace = [], PageKey = Some (put_uint64_be 0)\<rparr>), [])"
proof -
  have "Iterator_Each not_found_iterator record_epoch NoRange (0, None) []
     = Some (Some (UnknownMessage (TxId \<lparr>TxId = 1, GameShardTransaction = []\<rparr>)),
             (1, Some \<lparr>Namespace = [], PageKey = Some (put_uint64_be 0)\<rparr>), [])"
    using Each_unknown_message_fatal
            [of not_found_iterator "(0, None)" "Some (put_uint64_be 0)" "hd not_found_feed"
                "(1, Some \<lparr>Namespace = [], PageKey = Some (put_uint64_be 0)\<rparr>)"
                "[]" "\<lparr>Epoch_number = 1, UnixTimestamp = 1,
                       Txs = [\<lparr>TxId = 1, GameShardTransaction = []\<rparr>]\<rparr>" "[]"
                record_epoch None "[]" "[]" "[]" "\<lparr>TxId = 1, GameShardTransaction = []\<rparr>" "[]" "[]"
                NoRange]
    by (simp add: not_found_iterator_def not_found_feed_def mockQuerier_def past_stop_def)
  then show ?thesis by simp
qed

text \<open>
  C8. When both ticks are supplied and \<open>startTick \<ge> stopTick\<close>, \<open>Each\<close> returns the
  range error; the feed is not called (its state is returned as it was, whatever the
  feed is) and the callback state is untouched.
\<close>

theorem Each_invalid_range:
  assumes "stop \<le> start"
  shows "Iterator_Each it fn (Between start stop) q s = Some (Some InvalidRange, q, s)"
  using assms by (simp add: Iterator_Each_def)

theorem Each_invalid_range_witness:
  "(0::nat) \<le> 154
   \<and> Iterator_Each stop_range_iterator record_epoch (Between 154 0) (0, None) []
       = Some (Some InvalidRange, (0, None), [])"
  using Each_invalid_range [of 0 154 stop_range_iterator record_epoch "(0, None)" "[]"]
  by simp




lemma processed_epochs_append_stop:
  assumes "list_ex (meets_stop stop) xs"
  shows "processed_epochs stop (xs @ ys) = processed_epochs stop xs"
  using assms
proof (induction xs)
  case Nil
  then show ?case by simp
next
  case (Cons ep eps)
  show ?case
  proof (cases "meets_stop stop ep")
    case True
    then show ?thesis by simp
  next
    case False
    then have "\<not> past_stop stop ep"
      by (auto simp: meets_stop_def past_stop_def split: option.splits)
    with False Cons show ?thesis by simp
  qed
qed




lemma processed_epochs_takeWhile:
  "processed_epochs None eps = eps"
  "processed_epochs (Some t) eps
     = takeWhile (\<lambda>ep. Epoch_number ep < t) eps
       @ (case dropWhile (\<lambda>ep. Epoch_number ep < t) eps of
            [] \<Rightarrow> []
          | ep # _ \<Rightarrow> if Epoch_number ep = t then [ep] else [])"
proof -
  show "processed_epochs None eps = eps"
    by (induction eps) (simp_all add: past_stop_def meets_stop_def)
  show "processed_epochs (Some t) eps
     = takeWhile (\<lambda>ep. Epoch_number ep < t) eps
       @ (case dropWhile (\<lambda>ep. Epoch_number ep < t) eps of
            [] \<Rightarrow> []
          | ep # _ \<Rightarrow> if Epoch_number ep = t then [ep] else [])"
    by (induction eps) (auto simp: past_stop_def meets_stop_def)
qed




subsection \<open>The tests of the iterator hold of the model\<close>

lemma TestIteratorReturnsErrorIfQueryFails:
  "Iterator_Each (failing_iterator ''foo'' ''some error'') record_epoch NoRange (0, None) []
     = Some (Some (QueryFailed ''some error''),
             (0, Some \<lparr>Namespace = ''foo'', PageKey = Some (put_uint64_be 0)\<rparr>), [])"
  unfolding Iterator_Each_def
  by (subst each_pages.simps) (simp add: failing_iterator_def mockQuerier_def)

lemma TestIteratorHappyPath:
  "Iterator_Each happy_path_iterator record_epoch NoRange (0, None) []
     = Some (None, (1, Some \<lparr>Namespace = ''ns'', PageKey = Some (put_uint64_be 0)\<rparr>),
             [([\<lparr>MsgID = 10, MsgValue = [3]\<rparr>], 12, 15)])"
  unfolding Iterator_Each_def
  by (subst each_pages.simps)
     (simp add: happy_path_iterator_def happy_path_feed_def mockQuerier_def foo_lookup_def
                fooMsg_def past_stop_def meets_stop_def record_epoch_def)

lemma TestIteratorStartRange:
  "Iterator_Each (failing_iterator [] ''whatever'') record_epoch (From 5) (0, None) []
     = Some (Some (QueryFailed ''whatever''),
             (0, Some \<lparr>Namespace = [], PageKey = Some (put_uint64_be 5)\<rparr>), [])
   \<and> parsePageKey (put_uint64_be 5) = Some 5"
proof -
  have "Iterator_Each (failing_iterator [] ''whatever'') record_epoch (From 5) (0, None) []
     = Some (Some (QueryFailed ''whatever''),
             (0, Some \<lparr>Namespace = [], PageKey = Some (put_uint64_be 5)\<rparr>), [])"
    unfolding Iterator_Each_def
    by (subst each_pages.simps) (simp add: failing_iterator_def mockQuerier_def)
  moreover have "parsePageKey (put_uint64_be 5) = Some 5"
    by (simp add: parsePageKey_def put_uint64_be_def)
  ultimately show ?thesis by simp
qed

end
